theory Spec2Isabelle
  imports Main "HOL-Library.Sublist"
begin

section \<open>Python strings\<close>

text \<open>
  A Python \<open>str\<close> is a sequence of Unicode code points, and \<open>len\<close>, slicing and
  \<open>str.replace\<close> count code points.  A string is therefore a list of code points
  (natural numbers); \<open>str\<close> turns an ASCII literal into such a list.
\<close>

type_synonym pystr = "nat list"

definition str :: "string \<Rightarrow> pystr" where
  "str s = map of_char s"

text \<open>
  \<open>\s\<close> in a \<open>str\<close> pattern of the \<open>re\<close> module matches the characters for which
  \<open>str.isspace\<close> holds: TAB..CR, FS..US, space, NEL, NBSP, U+1680, U+2000..U+200A,
  U+2028, U+2029, U+202F, U+205F and U+3000.
\<close>

definition is_space :: "nat \<Rightarrow> bool" where
  "is_space c \<longleftrightarrow>
     (9 \<le> c \<and> c \<le> 13) \<or> (28 \<le> c \<and> c \<le> 32) \<or> c = 133 \<or> c = 160 \<or> c = 5760 \<or>
     (8192 \<le> c \<and> c \<le> 8202) \<or> c = 8232 \<or> c = 8233 \<or> c = 8239 \<or> c = 8287 \<or> c = 12288"

text \<open>
  \<open>s.replace(old, new)\<close>: every non-overlapping occurrence of \<open>old\<close>, found from
  the left, is replaced by \<open>new\<close>.  For the empty \<open>old\<close> Python inserts \<open>new\<close> before
  every character and at the end.
\<close>

function replace_from :: "pystr \<Rightarrow> pystr \<Rightarrow> pystr \<Rightarrow> pystr" where
  "replace_from old new [] = []"
| "replace_from old new (c # cs) =
     (if old \<noteq> [] \<and> prefix old (c # cs)
      then new @ replace_from old new (drop (length old) (c # cs))
      else c # replace_from old new cs)"
  by pat_completeness auto
termination
  by (relation "measure (\<lambda>(old, new, s). length s)") (auto simp: neq_Nil_conv)

definition str_replace :: "pystr \<Rightarrow> pystr \<Rightarrow> pystr \<Rightarrow> pystr" where
  "str_replace s old new =
     (if old = [] then new @ concat (map (\<lambda>c. c # new) s) else replace_from old new s)"

text \<open>\<open>s.strip(chars)\<close>: drop leading and trailing characters that are in \<open>chars\<close>.\<close>

definition str_strip :: "pystr \<Rightarrow> pystr \<Rightarrow> pystr" where
  "str_strip s chars =
     rev (dropWhile (\<lambda>c. c \<in> set chars) (rev (dropWhile (\<lambda>c. c \<in> set chars) s)))"

section \<open>sanitize\_filename\<close>

text \<open>
  \<open>re.sub(r'[\s_]+', '_', name)\<close>: every maximal run of whitespace and underscores
  becomes one underscore (code point 95).
\<close>

definition ws_or_us :: "nat \<Rightarrow> bool" where
  "ws_or_us c \<longleftrightarrow> is_space c \<or> c = 95"

function re_sub_ws_us :: "pystr \<Rightarrow> pystr" where
  "re_sub_ws_us [] = []"
| "re_sub_ws_us (c # cs) =
     (if ws_or_us c then 95 # re_sub_ws_us (dropWhile ws_or_us cs) else c # re_sub_ws_us cs)"
  by pat_completeness auto
termination
  by (relation "measure length") (auto simp: less_Suc_eq_le length_dropWhile_le)

text \<open>The reserved characters \<open>< > : " / \ | ? *\<close>, in the order of the source.\<close>

definition invalid_chars :: pystr where
  "invalid_chars = [60, 62, 58, 34, 47, 92, 124, 63, 42]"

definition sanitize_filename :: "pystr \<Rightarrow> pystr" where
  "sanitize_filename name0 =
     (let name1 = foldl (\<lambda>name char. str_replace name [char] [95]) name0 invalid_chars;
          name2 = re_sub_ws_us name1;
          name3 = str_strip name2 [95, 32];
          name4 = (if length name3 > 100 then take 100 name3 else name3)
      in name4)"


section \<open>Pages and the hierarchy\<close>

text \<open>
  A page is the JSON object the remote returns.  \<open>page['id']\<close> and \<open>page['title']\<close> are
  always present; the other fields are read with \<open>.get\<close> and a default, so they are
  optional here: \<open>ancestors\<close> holds the ids of \<open>page['ancestors']\<close>, \<open>version_when\<close> is
  \<open>page['version']['when']\<close>, \<open>body_storage\<close> is \<open>page['body']['storage']['value']\<close> and
  \<open>labels\<close> holds the names of \<open>page['metadata']['labels']['results']\<close>.
\<close>

record page =
  page_id :: pystr
  title :: pystr
  ancestors :: "pystr list option"
  version_when :: "pystr option"
  body_storage :: "pystr option"
  labels :: "pystr list option"

definition get_ancestors :: "page \<Rightarrow> pystr list" where
  "get_ancestors p = (case ancestors p of None \<Rightarrow> [] | Some a \<Rightarrow> a)"

record hierarchy =
  roots :: "page list"
  children_map :: "pystr \<rightharpoonup> page list"

text \<open>
  The body of the loop of \<open>build_hierarchy\<close>, for one page; \<open>export_page_ids\<close> is the set
  of the ids of the exported pages.
\<close>

definition place_page :: "pystr set \<Rightarrow> hierarchy \<Rightarrow> page \<Rightarrow> hierarchy" where
  "place_page export_page_ids h p =
     (let ancs = get_ancestors p in
      if ancs = [] then h\<lparr>roots := roots h @ [p]\<rparr>
      else
        let parent_id = last ancs in
        if parent_id \<notin> export_page_ids then h\<lparr>roots := roots h @ [p]\<rparr>
        else
          (case children_map h parent_id of
             None \<Rightarrow> h\<lparr>children_map := (children_map h)(parent_id \<mapsto> [p])\<rparr>
           | Some cs \<Rightarrow> h\<lparr>children_map := (children_map h)(parent_id \<mapsto> cs @ [p])\<rparr>))"

definition export_page_ids :: "page list \<Rightarrow> pystr set" where
  "export_page_ids pages = set (map page_id pages)"

definition build_hierarchy :: "page list \<Rightarrow> hierarchy" where
  "build_hierarchy pages =
     foldl (place_page (export_page_ids pages)) \<lparr>roots = [], children_map = Map.empty\<rparr> pages"

text \<open>\<open>children_map.get(page_id, [])\<close>\<close>

definition get_children :: "(pystr \<rightharpoonup> page list) \<Rightarrow> pystr \<Rightarrow> page list" where
  "get_children cm k = (case cm k of None \<Rightarrow> [] | Some cs \<Rightarrow> cs)"

section \<open>Paths\<close>

text \<open>
  A \<open>pathlib\<close> path is the list of its segments.  \<open>p / name\<close>, for a name without a
  separator (every name joined in this program is \<open>attachments\<close>, \<open>index.md\<close> or an
  output of \<open>sanitize_filename\<close>, which has neither \<open>/\<close> nor \<open>\\<close>), appends the
  segment; \<open>pathlib\<close> drops an empty segment and the segment \<open>.\<close>.
\<close>

type_synonym path = "pystr list"

definition path_join :: "path \<Rightarrow> pystr \<Rightarrow> path" where
  "path_join p name = (if name = [] \<or> name = [46] then p else p @ [name])"



section \<open>Dictionaries in insertion order\<close>

text \<open>
  A Python \<open>dict\<close> iterates in insertion order, and \<open>d[k] = v\<close> on a key that is present
  keeps the key's position.  \<open>url_mapping\<close> is iterated by \<open>convert_to_markdown\<close>, so it
  is an association list with that update.
\<close>

fun dict_set :: "'k \<Rightarrow> 'v \<Rightarrow> ('k \<times> 'v) list \<Rightarrow> ('k \<times> 'v) list" where
  "dict_set k v [] = [(k, v)]"
| "dict_set k v ((k', v') # d) = (if k' = k then (k, v) # d else (k', v') # dict_set k v d)"

type_synonym url_mapping = "(pystr \<times> pystr) list"

section \<open>The remote site and the local disk\<close>

text \<open>
  What the program reads from outside is a parameter, the record \<open>env\<close>: the answers of the
  Confluence client (page listing, attachment listing, the \<open>GET\<close> of a download URL with
  \<open>raise_for_status\<close>; \<open>Inl\<close> is a raised exception), whether a \<open>mkdir\<close> or the writing
  of a file fails in a given state of the disk, and the two library functions
  \<open>markdownify.markdownify\<close> and \<open>datetime.fromisoformat\<close> (\<open>None\<close> is its \<open>ValueError\<close>).  An
  attachment is the JSON object of the listing: \<open>att_title\<close> is \<open>attachment['title']\<close>
  and \<open>att_download\<close> is \<open>attachment['_links']['download']\<close>.  The disk is the set of
  directories and the contents of the files.  Writing a file is \<open>open(path, mode)\<close> and
  \<open>f.write(data)\<close>: either both succeed, or \<open>open\<close> raises and the disk is as it was, or
  the write raises after \<open>open\<close> has created or truncated the file, which then holds
  whatever was written before the failure.  A \<open>datetime\<close> is its wall-clock reading on a
  linear scale and its UTC offset (\<open>None\<close> for a naive value).  What the program prints
  is not modelled.
\<close>

datatype error = KeyError | RemoteError | OSError | TypeError

record attachment =
  att_title :: pystr
  att_download :: pystr

datatype content = Bytes "nat list" | Text pystr

datatype write_outcome = Written | OpenFailed | WriteFailed content

record filesystem =
  dirs :: "path set"
  files :: "path \<rightharpoonup> content"

record datetime =
  wall :: int
  tzinfo :: "int option"

record env =
  confluence_url :: pystr
  get_all_pages_from_space :: "nat \<Rightarrow> nat \<Rightarrow> error + page list"
  get_attachments_from_content :: "pystr \<Rightarrow> error + attachment list"
  session_get :: "pystr \<Rightarrow> error + nat list"
  mkdir_fails :: "filesystem \<Rightarrow> path \<Rightarrow> bool"
  write_attempt :: "filesystem \<Rightarrow> path \<Rightarrow> write_outcome"
  markdownify :: "pystr \<Rightarrow> pystr"
  fromisoformat :: "pystr \<Rightarrow> datetime option"

definition mkdir :: "env \<Rightarrow> path \<Rightarrow> filesystem \<Rightarrow> error + filesystem" where
  "mkdir env p fs =
     (if mkdir_fails env fs p then Inl OSError else Inr (fs\<lparr>dirs := dirs fs \<union> set (prefixes p)\<rparr>))"

definition write_file :: "env \<Rightarrow> path \<Rightarrow> content \<Rightarrow> filesystem \<Rightarrow> error option \<times> filesystem" where
  "write_file env p c fs =
     (case write_attempt env fs p of
        Written \<Rightarrow> (None, fs\<lparr>files := (files fs)(p \<mapsto> c)\<rparr>)
      | OpenFailed \<Rightarrow> (Some OSError, fs)
      | WriteFailed left \<Rightarrow> (Some OSError, fs\<lparr>files := (files fs)(p \<mapsto> left)\<rparr>))"

section \<open>download\_attachments\<close>

text \<open>
  The values bound at the head of the loop body: the absolute URL, the local file and
  the relative path recorded in \<open>url_mapping\<close>.
\<close>

definition full_url :: "env \<Rightarrow> attachment \<Rightarrow> pystr" where
  "full_url env attachment =
     (if prefix (str ''/'') (att_download attachment)
      then confluence_url env @ att_download attachment
      else att_download attachment)"

definition local_path :: "path \<Rightarrow> attachment \<Rightarrow> path" where
  "local_path attachments_dir attachment =
     path_join attachments_dir (sanitize_filename (att_title attachment))"

definition attachment_link :: "attachment \<Rightarrow> pystr" where
  "attachment_link attachment = str ''attachments/'' @ sanitize_filename (att_title attachment)"

text \<open>
  The body of the loop over the listed attachments: the inner \<open>try\<close> catches a failed
  \<open>GET\<close> and a failed write and goes on to the next attachment; the two entries are
  stored after the write.
\<close>

definition download_one :: "env \<Rightarrow> path \<Rightarrow> url_mapping \<times> filesystem \<Rightarrow> attachment
    \<Rightarrow> url_mapping \<times> filesystem" where
  "download_one env attachments_dir state attachment =
     (let url_mapping = fst state; fs = snd state;
          filename = att_title attachment;
          download_url = att_download attachment
      in case session_get env (full_url env attachment) of
           Inl e \<Rightarrow> (url_mapping, fs)
         | Inr response_content \<Rightarrow>
             (case write_file env (local_path attachments_dir attachment)
                     (Bytes response_content) fs of
                (Some e, fs') \<Rightarrow> (url_mapping, fs')
              | (None, fs') \<Rightarrow>
                  (dict_set download_url (attachment_link attachment)
                     (dict_set filename (attachment_link attachment) url_mapping),
                   fs')))"

text \<open>
  The outer \<open>try\<close> catches a failed listing and a failed \<open>mkdir\<close>; the mapping is still
  empty then.
\<close>

definition download_attachments :: "env \<Rightarrow> pystr \<Rightarrow> path \<Rightarrow> filesystem
    \<Rightarrow> url_mapping \<times> filesystem" where
  "download_attachments env pid page_path fs =
     (let attachments_dir = path_join page_path (str ''attachments'') in
      case get_attachments_from_content env pid of
        Inl e \<Rightarrow> ([], fs)
      | Inr results \<Rightarrow>
          if results = [] then ([], fs)
          else (case mkdir env attachments_dir fs of
                  Inl e \<Rightarrow> ([], fs)
                | Inr fs1 \<Rightarrow> foldl (download_one env attachments_dir) ([], fs1) results))"

section \<open>convert\_to\_markdown\<close>

text \<open>
  \<open>replace_urls\<close> is the loop over \<open>url_mapping.items()\<close> that replaces every key by its
  value, in the order of the dict; \<open>re_sub_newlines\<close> is
  \<open>re.sub(r'\n{3,}', '\n\n', md_content)\<close>: a run of three or more newlines (code point
  10) becomes two.
\<close>

definition replace_urls :: "pystr \<Rightarrow> url_mapping \<Rightarrow> pystr" where
  "replace_urls md_content url_mapping =
     foldl (\<lambda>md item. str_replace md (fst item) (snd item)) md_content url_mapping"

function re_sub_newlines :: "pystr \<Rightarrow> pystr" where
  "re_sub_newlines [] = []"
| "re_sub_newlines (c # cs) =
     (if c = 10 \<and> 3 \<le> length (takeWhile (\<lambda>x. x = 10) (c # cs))
      then 10 # 10 # re_sub_newlines (dropWhile (\<lambda>x. x = 10) cs)
      else c # re_sub_newlines cs)"
  by pat_completeness auto
termination
  by (relation "measure length") (auto simp: less_Suc_eq_le length_dropWhile_le)

definition convert_to_markdown :: "env \<Rightarrow> pystr \<Rightarrow> url_mapping \<Rightarrow> pystr" where
  "convert_to_markdown env html_content url_mapping =
     re_sub_newlines (replace_urls (markdownify env html_content) url_mapping)"

section \<open>handle\_drawio\_embeds\<close>

text \<open>
  The pattern is \<open><ac:structured-macro[^>]*ac:name="drawio"[^>]*>.*?</ac:structured-macro>\<close>
  with \<open>DOTALL\<close>.  A match at the head of a string is the opening text, characters
  other than \<open>>\<close>, among them the name attribute, the next \<open>>\<close>, and everything up to
  and with the first closing tag after it; \<open>drawio_match\<close> returns what follows the
  match.  \<open>re.sub\<close> replaces the leftmost match and goes on behind it.
\<close>

definition drawio_open :: pystr where
  "drawio_open = str ''<ac:structured-macro''"

definition drawio_name :: pystr where
  "drawio_name = str ''ac:name='' @ [34] @ str ''drawio'' @ [34]"

definition drawio_close :: pystr where
  "drawio_close = str ''</ac:structured-macro>''"

definition drawio_placeholder :: pystr where
  "drawio_placeholder =
     [10, 10] @ str ''> '' @ [240, 376, 8220, 352] @ str '' **Draw.io Diagram** - See attachments folder for ''
       @ [96] @ str ''.drawio'' @ [96] @ str '' file'' @ [10, 10]"

fun find_after :: "pystr \<Rightarrow> pystr \<Rightarrow> pystr option" where
  "find_after pat [] = (if pat = [] then Some [] else None)"
| "find_after pat (c # cs) =
     (if prefix pat (c # cs) then Some (drop (length pat) (c # cs)) else find_after pat cs)"

definition drawio_match :: "pystr \<Rightarrow> pystr option" where
  "drawio_match s =
     (if prefix drawio_open s then
        let after_open = drop (length drawio_open) s;
            attrs = takeWhile (\<lambda>c. c \<noteq> 62) after_open;
            rest = dropWhile (\<lambda>c. c \<noteq> 62) after_open
        in if rest \<noteq> [] \<and> sublist drawio_name attrs then find_after drawio_close (tl rest)
           else None
      else None)"

lemma find_after_length: "find_after pat s = Some r \<Longrightarrow> length r \<le> length s"
  by (induction s) (auto split: if_splits)

lemma drawio_match_length: "drawio_match s = Some r \<Longrightarrow> length r < length s"
proof -
  assume m: "drawio_match s = Some r"
  let ?a = "drop (length drawio_open) s"
  let ?rest = "dropWhile (\<lambda>c. c \<noteq> 62) ?a"
  from m have ne: "?rest \<noteq> []" and f: "find_after drawio_close (tl ?rest) = Some r"
    by (auto simp: drawio_match_def Let_def split: if_splits)
  from f have "length r \<le> length (tl ?rest)" by (rule find_after_length)
  also from ne have "\<dots> < length ?rest" by (cases ?rest) auto
  also have "\<dots> \<le> length ?a" by (rule length_dropWhile_le)
  also have "\<dots> \<le> length s" by simp
  finally show ?thesis .
qed

function handle_drawio_embeds :: "pystr \<Rightarrow> pystr" where
  "handle_drawio_embeds [] = []"
| "handle_drawio_embeds (c # cs) =
     (case drawio_match (c # cs) of
        Some rest \<Rightarrow> drawio_placeholder @ handle_drawio_embeds rest
      | None \<Rightarrow> c # handle_drawio_embeds cs)"
  by pat_completeness auto
termination
  by (relation "measure length") (auto dest: drawio_match_length)

section \<open>export\_page\<close>

text \<open>
  \<open>str_join\<close> is \<open>sep.join(xs)\<close>.  \<open>export_page\<close> raises \<open>KeyError\<close> for a page without an
  assigned path, and an error of \<open>mkdir\<close> or of the final write is not caught.
\<close>

fun str_join :: "pystr \<Rightarrow> pystr list \<Rightarrow> pystr" where
  "str_join sep [] = []"
| "str_join sep [x] = x"
| "str_join sep (x # y # ys) = x @ sep @ str_join sep (y # ys)"

definition export_page :: "env \<Rightarrow> (pystr \<rightharpoonup> path) \<Rightarrow> page \<Rightarrow> filesystem \<Rightarrow> error + filesystem" where
  "export_page env page_paths p fs =
     (case page_paths (page_id p) of
        None \<Rightarrow> Inl KeyError
      | Some page_path \<Rightarrow>
          (case mkdir env page_path fs of
             Inl e \<Rightarrow> Inl e
           | Inr fs1 \<Rightarrow>
               (let downloaded = download_attachments env (page_id p) page_path fs1;
                    url_mapping = fst downloaded; fs2 = snd downloaded;
                    html_content = (case body_storage p of None \<Rightarrow> [] | Some v \<Rightarrow> v);
                    html_content' = handle_drawio_embeds html_content;
                    md_content = convert_to_markdown env html_content' url_mapping;
                    md_content' = str ''# '' @ title p @ [10, 10] @ md_content;
                    label_names = (case labels p of None \<Rightarrow> [] | Some ls \<Rightarrow> ls);
                    md_content'' =
                      (if label_names \<noteq> []
                       then str ''---'' @ [10] @ str ''labels: '' @ str_join (str '', '') label_names
                            @ [10] @ str ''---'' @ [10, 10] @ md_content'
                       else md_content')
                in case write_file env (path_join page_path (str ''index.md''))
                          (Text md_content'') fs2 of
                     (Some e, fs') \<Rightarrow> Inl e
                   | (None, fs') \<Rightarrow> Inr fs')))"

section \<open>fetch\_all\_pages\<close>

text \<open>
  \<open>dt_ge a b\<close> is \<open>a >= b\<close> on \<open>datetime\<close> values: two naive values compare by their
  wall clock, two aware values by their instant, and a naive with an aware value raises
  \<open>TypeError\<close> (\<open>None\<close>).  \<open>filter_since\<close> is the loop that fills \<open>filtered_pages\<close>;
  \<open>fetch_loop\<close> is the \<open>while True\<close> loop over the listing in steps of 50, which need not
  end; the index \<open>pages_by_id\<close> is never read and is left out.
\<close>

definition dt_ge :: "datetime \<Rightarrow> datetime \<Rightarrow> bool option" where
  "dt_ge a b =
     (case (tzinfo a, tzinfo b) of
        (None, None) \<Rightarrow> Some (wall b \<le> wall a)
      | (Some oa, Some ob) \<Rightarrow> Some (wall b - ob \<le> wall a - oa)
      | _ \<Rightarrow> None)"

fun filter_since :: "env \<Rightarrow> datetime \<Rightarrow> page list \<Rightarrow> page list \<Rightarrow> error + page list" where
  "filter_since env since [] filtered_pages = Inr filtered_pages"
| "filter_since env since (p # rest) filtered_pages =
     (let modified_str = (case version_when p of None \<Rightarrow> [] | Some w \<Rightarrow> w) in
      if modified_str \<noteq> [] then
        (case fromisoformat env (str_replace modified_str (str ''Z'') (str ''+00:00'')) of
           None \<Rightarrow> filter_since env since rest (filtered_pages @ [p])
         | Some modified_date \<Rightarrow>
             (let since_aware = since\<lparr>tzinfo := tzinfo modified_date\<rparr> in
              case dt_ge modified_date since_aware of
                None \<Rightarrow> Inl TypeError
              | Some b \<Rightarrow>
                  if b then filter_since env since rest (filtered_pages @ [p])
                  else filter_since env since rest filtered_pages))
      else filter_since env since rest (filtered_pages @ [p]))"

partial_function (option) fetch_loop :: "env \<Rightarrow> nat \<Rightarrow> page list \<Rightarrow> (error + page list) option" where
  "fetch_loop env start all_pages =
     (case get_all_pages_from_space env start 50 of
        Inl e \<Rightarrow> Some (Inl e)
      | Inr pages \<Rightarrow>
          if pages = [] then Some (Inr all_pages)
          else if length pages < 50 then Some (Inr (all_pages @ pages))
          else fetch_loop env (start + 50) (all_pages @ pages))"

definition fetch_all_pages :: "env \<Rightarrow> datetime option \<Rightarrow> (error + page list) option" where
  "fetch_all_pages env since_date =
     (case fetch_loop env 0 [] of
        None \<Rightarrow> None
      | Some (Inl e) \<Rightarrow> Some (Inl e)
      | Some (Inr all_pages) \<Rightarrow>
          (case since_date of
             Some since \<Rightarrow> Some (filter_since env since all_pages [])
           | None \<Rightarrow> Some (Inr all_pages)))"

section \<open>Auxiliary notions for the proofs\<close>

text \<open>The name after the loop over \<open>invalid_chars\<close>: every reserved character is an underscore.\<close>

definition unreserve :: "pystr \<Rightarrow> pystr" where
  "unreserve s = map (\<lambda>c. if c \<in> set invalid_chars then 95 else c) s"

text \<open>
  The shape of a name after \<open>re.sub(r'[\s_]+', '_', name)\<close>: no whitespace, and no two
  underscores side by side.
\<close>

fun collapsed :: "pystr \<Rightarrow> bool" where
  "collapsed [] = True"
| "collapsed [a] = (a = 95 \<or> \<not> is_space a)"
| "collapsed (a # b # cs) =
     ((a = 95 \<or> \<not> is_space a) \<and> \<not> (a = 95 \<and> b = 95) \<and> collapsed (b # cs))"

text \<open>
  The two tests of \<open>build_hierarchy\<close>: a page is a root when it has no ancestors or its
  last ancestor is not exported; otherwise it is a child of its last ancestor.
\<close>

definition is_root :: "pystr set \<Rightarrow> page \<Rightarrow> bool" where
  "is_root ids p \<longleftrightarrow> get_ancestors p = [] \<or> last (get_ancestors p) \<notin> ids"

definition child_of :: "pystr set \<Rightarrow> pystr \<Rightarrow> page \<Rightarrow> bool" where
  "child_of ids k p \<longleftrightarrow> \<not> is_root ids p \<and> last (get_ancestors p) = k"












text \<open>The test of the date filter: the page is appended to \<open>filtered_pages\<close>.\<close>

definition kept_since :: "env \<Rightarrow> datetime \<Rightarrow> page \<Rightarrow> bool" where
  "kept_since env since p \<longleftrightarrow>
     (case version_when p of
        None \<Rightarrow> True
      | Some w \<Rightarrow>
          w = [] \<or>
          (case fromisoformat env (str_replace w (str ''Z'') (str ''+00:00'')) of
             None \<Rightarrow> True
           | Some modified_date \<Rightarrow> wall since \<le> wall modified_date))"

text \<open>
  Concrete inputs for the examples: pages with and without a modification date, and a
  site with one page \<open>A\<close> that has the attachment \<open>diagram v1.png\<close>.
\<close>

definition dated_page :: "string \<Rightarrow> pystr option \<Rightarrow> page" where
  "dated_page i w =
     \<lparr>page_id = str i, title = str i, ancestors = None, version_when = w,
      body_storage = None, labels = None\<rparr>"

definition example_dated_pages :: "page list" where
  "example_dated_pages =
     [dated_page ''new'' (Some (str ''2024-01-02T13:25:33.000Z'')),
      dated_page ''old'' (Some (str ''2023-05-01T00:00:00.000Z'')),
      dated_page ''none'' None,
      dated_page ''bad'' (Some (str ''yesterday''))]"

definition example_env :: env where
  "example_env =
     \<lparr>confluence_url = str ''https://wiki.example'',
      get_all_pages_from_space = (\<lambda>start limit. if start = 0 then Inr example_dated_pages else Inr []),
      get_attachments_from_content =
        (\<lambda>pid. if pid = str ''A''
                then Inr [\<lparr>att_title = str ''diagram v1.png'', att_download = str ''/download/d1''\<rparr>]
                else Inr []),
      session_get = (\<lambda>url. if url = str ''https://wiki.example/download/d1'' then Inr [137, 80]
                           else Inl RemoteError),
      mkdir_fails = (\<lambda>fs p. False),
      write_attempt = (\<lambda>fs p. Written),
      markdownify = (\<lambda>html. html),
      fromisoformat =
        (\<lambda>s. if s = str ''2024-01-02T13:25:33.000+00:00''
              then Some \<lparr>wall = 20240102132533, tzinfo = Some 0\<rparr>
              else if s = str ''2023-05-01T00:00:00.000+00:00''
              then Some \<lparr>wall = 20230501000000, tzinfo = Some 0\<rparr>
              else None)\<rparr>"

text \<open>
  An empty disk, and a site whose two attachments \<open>a.png\<close> and \<open>b.png\<close> have the same
  download reference.
\<close>

definition empty_disk :: filesystem where
  "empty_disk = \<lparr>dirs = {}, files = Map.empty\<rparr>"

definition shared_link_env :: env where
  "shared_link_env =
     example_env
       \<lparr>get_attachments_from_content :=
          (\<lambda>pid. Inr [\<lparr>att_title = str ''a.png'', att_download = str ''/d/1''\<rparr>,
                      \<lparr>att_title = str ''b.png'', att_download = str ''/d/1''\<rparr>]),
        session_get := (\<lambda>url. Inr [1])\<rparr>"

text \<open>The page \<open>A\<close> of the example site, with two labels and a reference to its attachment.\<close>

definition home_page :: page where
  "home_page =
     \<lparr>page_id = str ''A'', title = str ''Home'', ancestors = None, version_when = None,
      body_storage = Some (str ''see diagram v1.png''), labels = Some [str ''a'', str ''b'']\<rparr>"

text \<open>
  Two strings overlap when one is a substring of the other or a non-empty end of one is a
  start of the other: then an occurrence of the one in a text can share characters with
  an occurrence of the other.
\<close>

definition overlap :: "pystr \<Rightarrow> pystr \<Rightarrow> bool" where
  "overlap k v \<longleftrightarrow>
     sublist k v \<or> sublist v k \<or>
     (\<exists>x\<in>set (suffixes v). x \<noteq> [] \<and> prefix x k) \<or>
     (\<exists>x\<in>set (prefixes v). x \<noteq> [] \<and> suffix x k)"


text \<open>
  The attachments that \<open>download_attachments\<close> downloads.  \<open>download_ok\<close> is the condition
  under which the body of the loop reaches the two assignments to \<open>url_mapping\<close>: the
  \<open>GET\<close> answers and the file is written, on the disk that the attachments before have
  left.  \<open>downloaded\<close> runs the loop and keeps these attachments, in the order of the
  listing; \<open>downloaded_attachments\<close> is this list for a page (empty when the listing or
  \<open>mkdir\<close> fails).
\<close>

definition download_ok :: "env \<Rightarrow> path \<Rightarrow> filesystem \<Rightarrow> attachment \<Rightarrow> bool" where
  "download_ok env dir fs a \<longleftrightarrow>
     (case session_get env (full_url env a) of
        Inl e \<Rightarrow> False
      | Inr response_content \<Rightarrow> write_attempt env fs (local_path dir a) = Written)"

fun downloaded :: "env \<Rightarrow> path \<Rightarrow> filesystem \<Rightarrow> attachment list \<Rightarrow> attachment list" where
  "downloaded env dir fs [] = []"
| "downloaded env dir fs (a # as) =
     (if download_ok env dir fs a then [a] else [])
     @ downloaded env dir (snd (download_one env dir ([], fs) a)) as"

definition downloaded_attachments :: "env \<Rightarrow> pystr \<Rightarrow> path \<Rightarrow> filesystem \<Rightarrow> attachment list" where
  "downloaded_attachments env pid page_path fs =
     (case get_attachments_from_content env pid of
        Inl e \<Rightarrow> []
      | Inr results \<Rightarrow>
          (case mkdir env (path_join page_path (str ''attachments'')) fs of
             Inl e \<Rightarrow> []
           | Inr fs1 \<Rightarrow> downloaded env (path_join page_path (str ''attachments'')) fs1 results))"

text \<open>
  The two assignments \<open>url_mapping[filename] = ...\<close> and \<open>url_mapping[download_url] = ...\<close>
  for one attachment, and the last attachment of a list that has the string \<open>k\<close> as its
  filename or as its download reference.
\<close>

definition add_entries :: "url_mapping \<Rightarrow> attachment \<Rightarrow> url_mapping" where
  "add_entries m a =
     dict_set (att_download a) (attachment_link a) (dict_set (att_title a) (attachment_link a) m)"

definition has_key :: "pystr \<Rightarrow> attachment \<Rightarrow> bool" where
  "has_key k a \<longleftrightarrow> att_title a = k \<or> att_download a = k"

fun last_with_key :: "pystr \<Rightarrow> attachment list \<Rightarrow> attachment option" where
  "last_with_key k [] = None"
| "last_with_key k (a # as) =
     (case last_with_key k as of
        Some b \<Rightarrow> Some b
      | None \<Rightarrow> if has_key k a then Some a else None)"

text \<open>
  A site whose page has four attachments: \<open>a.png\<close> and \<open>diagram v1.png\<close> are downloaded,
  the \<open>GET\<close> for \<open>x.png\<close> fails, and the write of \<open>y.png\<close> fails after the file was
  opened.  A second site lists \<open>xa.png\<close>, whose \<open>GET\<close> fails, and \<open>a.png\<close>.
\<close>

definition mixed_env :: env where
  "mixed_env =
     example_env
       \<lparr>get_attachments_from_content :=
          (\<lambda>pid. Inr [\<lparr>att_title = str ''a.png'', att_download = str ''/d/a''\<rparr>,
                      \<lparr>att_title = str ''x.png'', att_download = str ''/d/x''\<rparr>,
                      \<lparr>att_title = str ''y.png'', att_download = str ''/d/y''\<rparr>,
                      \<lparr>att_title = str ''diagram v1.png'', att_download = str ''/download/d1''\<rparr>]),
        session_get := (\<lambda>url. if url = str ''https://wiki.example/d/x'' then Inl RemoteError
                              else Inr [1]),
        write_attempt := (\<lambda>fs p. if p = [str ''out'', str ''Home'', str ''attachments'', str ''y.png'']
                                 then WriteFailed (Bytes []) else Written)\<rparr>"

definition prefix_name_env :: env where
  "prefix_name_env =
     example_env
       \<lparr>get_attachments_from_content :=
          (\<lambda>pid. Inr [\<lparr>att_title = str ''xa.png'', att_download = str ''/d/xa''\<rparr>,
                      \<lparr>att_title = str ''a.png'', att_download = str ''/d/a''\<rparr>]),
        session_get := (\<lambda>url. if url = str ''https://wiki.example/d/xa'' then Inl RemoteError
                              else Inr [1])\<rparr>"
section \<open>Properties of the sanitizer\<close>

lemma replace_from_single:
  "replace_from [a] [b] s = map (\<lambda>c. if c = a then b else c) s"
  by (induction s) auto

lemma str_replace_single:
  "str_replace s [a] [b] = map (\<lambda>c. if c = a then b else c) s"
  by (simp add: str_replace_def replace_from_single)

lemma foldl_replace_chars:
  "u \<notin> set chs \<Longrightarrow>
   foldl (\<lambda>name char. str_replace name [char] [u]) s chs =
   map (\<lambda>c. if c \<in> set chs then u else c) s"
proof (induction chs arbitrary: s)
  case Nil
  then show ?case by simp
next
  case (Cons a chs)
  then have "foldl (\<lambda>name char. str_replace name [char] [u]) s (a # chs) =
      map (\<lambda>c. if c \<in> set chs then u else c) (map (\<lambda>c. if c = a then u else c) s)"
    by (simp add: str_replace_single)
  also have "\<dots> = map (\<lambda>c. if c \<in> set (a # chs) then u else c) s"
    using Cons.prems by auto
  finally show ?case .
qed

lemma sanitize_filename_steps:
  "sanitize_filename s = take 100 (str_strip (re_sub_ws_us (unreserve s)) [95, 32])"
proof -
  have "(95::nat) \<notin> set invalid_chars"
    by (simp add: invalid_chars_def)
  then have "foldl (\<lambda>name char. str_replace name [char] [95]) s invalid_chars = unreserve s"
    unfolding unreserve_def by (rule foldl_replace_chars)
  then show ?thesis
    by (simp add: sanitize_filename_def Let_def)
qed

lemma set_re_sub_ws_us: "set (re_sub_ws_us s) \<subseteq> insert 95 (set s)"
proof (induction s rule: re_sub_ws_us.induct)
  case 1
  then show ?case by simp
next
  case (2 c cs)
  have "set (dropWhile ws_or_us cs) \<subseteq> set cs"
    by (auto dest: set_dropWhileD)
  with 2 show ?case by auto
qed

lemma set_str_strip: "set (str_strip s chars) \<subseteq> set s"
proof -
  have "set (str_strip s chars) \<subseteq> set (dropWhile (\<lambda>c. c \<in> set chars) s)"
    unfolding str_strip_def by (auto dest: set_dropWhileD)
  also have "\<dots> \<subseteq> set s"
    by (auto dest: set_dropWhileD)
  finally show ?thesis .
qed

lemma set_unreserve: "set (unreserve s) \<inter> set invalid_chars \<subseteq> {95}"
  by (auto simp: unreserve_def)

lemma dropWhile_hd_not: "dropWhile P xs = y # ys \<Longrightarrow> \<not> P y"
  by (metis dropWhile_eq_Cons_conv)

lemma re_sub_hd: "\<not> ws_or_us y \<Longrightarrow> re_sub_ws_us (y # ys) = y # re_sub_ws_us ys"
  by simp

lemma collapsed_re_sub: "collapsed (re_sub_ws_us s)"
proof (induction s rule: re_sub_ws_us.induct)
  case 1
  then show ?case by simp
next
  case (2 c cs)
  show ?case
  proof (cases "ws_or_us c")
    case True
    then have ih: "collapsed (re_sub_ws_us (dropWhile ws_or_us cs))" using 2 by simp
    show ?thesis
    proof (cases "dropWhile ws_or_us cs")
      case Nil
      with True show ?thesis by (simp del: dropWhile_eq_Nil_conv)
    next
      case (Cons y ys)
      then have ny: "\<not> ws_or_us y" by (rule dropWhile_hd_not)
      with ih Cons True show ?thesis by (auto simp: ws_or_us_def)
    qed
  next
    case False
    then have ih: "collapsed (re_sub_ws_us cs)" using 2 by simp
    show ?thesis
    proof (cases "re_sub_ws_us cs")
      case Nil
      with False show ?thesis by (simp add: ws_or_us_def)
    next
      case (Cons y ys)
      with ih False show ?thesis by (auto simp: ws_or_us_def)
    qed
  qed
qed

lemma re_sub_collapsed: "collapsed s \<Longrightarrow> re_sub_ws_us s = s"
proof (induction s rule: collapsed.induct)
  case 1
  then show ?case by simp
next
  case (2 a)
  then show ?case by (auto simp: ws_or_us_def)
next
  case (3 a b cs)
  then show ?case by (cases cs) (auto simp: ws_or_us_def)
qed

lemma collapsed_take: "collapsed s \<Longrightarrow> collapsed (take n s)"
proof (induction s arbitrary: n rule: collapsed.induct)
  case 1
  then show ?case by simp
next
  case (2 a)
  then show ?case by (cases n) auto
next
  case (3 a b cs)
  show ?case
  proof (cases n)
    case 0
    then show ?thesis by simp
  next
    case (Suc m)
    with 3 have "collapsed (take m (b # cs))" by simp
    with 3 Suc show ?thesis by (cases m) auto
  qed
qed

lemma collapsed_tl: "collapsed (a # s) \<Longrightarrow> collapsed s"
  by (cases s) auto

lemma collapsed_dropWhile: "collapsed s \<Longrightarrow> collapsed (dropWhile P s)"
  by (induction s) (auto dest: collapsed_tl)

lemma rev_dropWhile_rev_take: "rev (dropWhile P (rev s)) = take (length s - length (takeWhile P (rev s))) s"
  by (metis dropWhile_eq_drop rev_drop rev_rev_ident length_rev)

lemma collapsed_strip: "collapsed s \<Longrightarrow> collapsed (str_strip s chars)"
  unfolding str_strip_def rev_dropWhile_rev_take
  by (intro collapsed_take collapsed_dropWhile)

lemma filter_re_sub: "filter (\<lambda>c. \<not> ws_or_us c) (re_sub_ws_us s) = filter (\<lambda>c. \<not> ws_or_us c) s"
proof (induction s rule: re_sub_ws_us.induct)
  case 1
  then show ?case by simp
next
  case (2 c cs)
  have "filter (\<lambda>c. \<not> ws_or_us c) (dropWhile ws_or_us cs) = filter (\<lambda>c. \<not> ws_or_us c) cs"
    by (induction cs) auto
  with 2 show ?case by (auto simp: ws_or_us_def)
qed

lemma re_sub_all_sep: "(\<forall>c\<in>set (re_sub_ws_us s). ws_or_us c) \<longleftrightarrow> (\<forall>c\<in>set s. ws_or_us c)"
proof -
  have "(\<forall>c\<in>set (re_sub_ws_us s). ws_or_us c) \<longleftrightarrow> filter (\<lambda>c. \<not> ws_or_us c) (re_sub_ws_us s) = []"
    by (simp add: filter_empty_conv)
  also have "\<dots> \<longleftrightarrow> filter (\<lambda>c. \<not> ws_or_us c) s = []"
    by (simp only: filter_re_sub)
  also have "\<dots> \<longleftrightarrow> (\<forall>c\<in>set s. ws_or_us c)"
    by (simp add: filter_empty_conv)
  finally show ?thesis .
qed

lemma str_strip_Nil: "str_strip s chars = [] \<longleftrightarrow> (\<forall>c\<in>set s. c \<in> set chars)"
proof -
  have "str_strip s chars = [] \<longleftrightarrow> (\<forall>c\<in>set (dropWhile (\<lambda>c. c \<in> set chars) s). c \<in> set chars)"
    by (simp add: str_strip_def)
  also have "\<dots> \<longleftrightarrow> dropWhile (\<lambda>c. c \<in> set chars) s = []"
  proof (cases "dropWhile (\<lambda>c. c \<in> set chars) s")
    case Nil
    then show ?thesis by (simp del: dropWhile_eq_Nil_conv)
  next
    case (Cons y ys)
    then have "y \<notin> set chars" by (rule dropWhile_hd_not)
    with Cons show ?thesis by (auto simp del: dropWhile_eq_Nil_conv)
  qed
  also have "\<dots> \<longleftrightarrow> (\<forall>c\<in>set s. c \<in> set chars)"
    by simp
  finally show ?thesis .
qed

lemma collapsed_sep: "collapsed s \<Longrightarrow> c \<in> set s \<Longrightarrow> ws_or_us c \<Longrightarrow> c = 95"
  by (induction s rule: collapsed.induct) (auto simp: ws_or_us_def)

lemma str_strip_outer:
  "str_strip s chars = [] \<or> (hd (str_strip s chars) \<notin> set chars \<and> last (str_strip s chars) \<notin> set chars)"
proof -
  let ?P = "\<lambda>c. c \<in> set chars"
  let ?d = "dropWhile ?P (rev (dropWhile ?P s))"
  show ?thesis
  proof (cases ?d)
    case Nil
    then show ?thesis by (simp add: str_strip_def del: dropWhile_eq_Nil_conv)
  next
    case (Cons y ys)
    then have ny: "\<not> ?P y" by (rule dropWhile_hd_not)
    have l: "last (str_strip s chars) = y"
      using Cons by (simp add: str_strip_def)
    have "str_strip s chars \<noteq> []"
      using Cons by (simp add: str_strip_def del: dropWhile_eq_Nil_conv)
    then obtain z zs where z: "str_strip s chars = z # zs"
      by (cases "str_strip s chars") auto
    have "rev (dropWhile ?P (rev (dropWhile ?P s))) = take (length (dropWhile ?P s) - length (takeWhile ?P (rev (dropWhile ?P s)))) (dropWhile ?P s)"
      by (rule rev_dropWhile_rev_take)
    then have "z # zs = take (length (dropWhile ?P s) - length (takeWhile ?P (rev (dropWhile ?P s)))) (dropWhile ?P s)"
      using z by (simp add: str_strip_def)
    then obtain ws where "dropWhile ?P s = z # ws"
      by (cases "dropWhile ?P s") (auto simp: take_Cons' split: if_splits)
    then have "\<not> ?P z" by (rule dropWhile_hd_not)
    with z l ny show ?thesis by simp
  qed
qed

lemma str_strip_id:
  "s = [] \<or> (hd s \<notin> set chars \<and> last s \<notin> set chars) \<Longrightarrow> str_strip s chars = s"
proof (cases s)
  case Nil
  then show ?thesis by (simp add: str_strip_def)
next
  case (Cons a as)
  assume "s = [] \<or> (hd s \<notin> set chars \<and> last s \<notin> set chars)"
  with Cons have a: "a \<notin> set chars" and l: "last s \<notin> set chars" by auto
  from a Cons have d: "dropWhile (\<lambda>c. c \<in> set chars) s = s" by simp
  from Cons have "s = butlast s @ [last s]" by simp
  then have "rev s = last s # rev (butlast s)"
    by (metis rev.simps(2) rev_rev_ident rev_swap append_Nil rev.simps(1) rev_append)
  then have "dropWhile (\<lambda>c. c \<in> set chars) (rev s) = rev s"
    using l by (simp only: dropWhile.simps if_False)
  with d show ?thesis by (simp add: str_strip_def)
qed

lemma unreserve_id: "set s \<inter> set invalid_chars = {} \<Longrightarrow> unreserve s = s"
  unfolding unreserve_def by (induction s) auto

lemma sanitize_filename_normal:
  "collapsed s \<Longrightarrow> set s \<inter> set invalid_chars = {} \<Longrightarrow>
   sanitize_filename s = take 100 (str_strip s [95, 32])"
  by (simp add: sanitize_filename_steps unreserve_id re_sub_collapsed)

lemma collapsed_sanitize: "collapsed (sanitize_filename s)"
  unfolding sanitize_filename_steps
  by (intro collapsed_take collapsed_strip collapsed_re_sub)

lemma no32_collapsed: "collapsed s \<Longrightarrow> 32 \<notin> set s"
  using collapsed_sep [of s 32] by (auto simp: ws_or_us_def is_space_def)

lemma length_str_strip: "length (str_strip s chars) \<le> length s"
proof -
  have "length (str_strip s chars) \<le> length (dropWhile (\<lambda>c. c \<in> set chars) s)"
    unfolding str_strip_def using length_dropWhile_le [of _ "rev (dropWhile (\<lambda>c. c \<in> set chars) s)"]
    by simp
  also have "\<dots> \<le> length s"
    by (rule length_dropWhile_le)
  finally show ?thesis .
qed

lemma set_sanitize_filename: "set (sanitize_filename s) \<inter> set invalid_chars = {}"
proof -
  have "set (sanitize_filename s) \<subseteq> set (str_strip (re_sub_ws_us (unreserve s)) [95, 32])"
    by (auto simp: sanitize_filename_steps dest: in_set_takeD)
  also have "\<dots> \<subseteq> set (re_sub_ws_us (unreserve s))"
    by (rule set_str_strip)
  also have "\<dots> \<subseteq> insert 95 (set (unreserve s))"
    by (rule set_re_sub_ws_us)
  finally have "set (sanitize_filename s) \<inter> set invalid_chars
      \<subseteq> insert 95 (set (unreserve s)) \<inter> set invalid_chars"
    by blast
  also have "\<dots> \<subseteq> {95} \<inter> set invalid_chars"
    using set_unreserve [of s] by blast
  also have "\<dots> = {}"
    by (simp add: invalid_chars_def)
  finally show ?thesis
    by blast
qed

lemma sanitize_filename_hd:
  "sanitize_filename s = [] \<or> hd (sanitize_filename s) \<notin> set [95, 32]"
proof -
  let ?u = "str_strip (re_sub_ws_us (unreserve s)) [95, 32]"
  have t: "sanitize_filename s = take 100 ?u"
    by (rule sanitize_filename_steps)
  show ?thesis
  proof (cases ?u)
    case Nil
    with t show ?thesis by simp
  next
    case (Cons a as)
    with str_strip_outer [of "re_sub_ws_us (unreserve s)" "[95, 32]"]
    have "a \<notin> set [95, 32]" by simp
    with t Cons show ?thesis by simp
  qed
qed

lemma sanitize_filename_twice_iff:
  "sanitize_filename (sanitize_filename s) = sanitize_filename s \<longleftrightarrow>
     (sanitize_filename s = [] \<or> last (sanitize_filename s) \<noteq> 95)"
proof -
  let ?t = "sanitize_filename s"
  have c: "collapsed ?t" by (rule collapsed_sanitize)
  have n: "sanitize_filename ?t = take 100 (str_strip ?t [95, 32])"
    using c set_sanitize_filename by (rule sanitize_filename_normal)
  have "length (str_strip ?t [95, 32]) \<le> length ?t"
    by (rule length_str_strip)
  also have "\<dots> \<le> 100"
    by (simp add: sanitize_filename_steps)
  finally have tw: "sanitize_filename ?t = str_strip ?t [95, 32]"
    using n by simp
  show ?thesis
  proof (cases "?t = []")
    case True
    then show ?thesis using tw by (simp add: str_strip_def)
  next
    case False
    then have l: "last ?t \<in> set ?t" by simp
    have n32: "last ?t \<noteq> 32"
      using no32_collapsed [OF c] l by metis
    show ?thesis
    proof (cases "last ?t = 95")
      case True
      have "str_strip ?t [95, 32] \<noteq> ?t"
      proof
        assume e: "str_strip ?t [95, 32] = ?t"
        from str_strip_outer [of ?t "[95, 32]"] False True show False
          unfolding e by simp
      qed
      with True False tw show ?thesis by simp
    next
      case n95: False
      from sanitize_filename_hd [of s] False n95 n32
      have "?t = [] \<or> (hd ?t \<notin> set [95, 32] \<and> last ?t \<notin> set [95, 32])"
        by simp
      then have "str_strip ?t [95, 32] = ?t"
        by (rule str_strip_id)
      with tw n95 show ?thesis by simp
    qed
  qed
qed

lemma sanitize_filename_short_last:
  assumes "length (sanitize_filename s) < 100"
  shows "sanitize_filename s = [] \<or> last (sanitize_filename s) \<noteq> 95"
proof -
  let ?u = "str_strip (re_sub_ws_us (unreserve s)) [95, 32]"
  have t: "sanitize_filename s = take 100 ?u"
    by (rule sanitize_filename_steps)
  with assms have "length ?u < 100" by (simp add: min_def split: if_splits)
  with t have "sanitize_filename s = ?u" by simp
  with str_strip_outer [of "re_sub_ws_us (unreserve s)" "[95, 32]"] show ?thesis
    by auto
qed

lemma collapsed_Cons: "\<not> ws_or_us a \<Longrightarrow> collapsed ys \<Longrightarrow> collapsed (a # ys)"
  by (cases ys) (auto simp: ws_or_us_def)

lemma collapsed_replicate: "\<not> ws_or_us a \<Longrightarrow> collapsed xs \<Longrightarrow> collapsed (replicate n a @ xs)"
  by (induction n) (auto intro: collapsed_Cons)

lemma sanitize_long_name:
  "sanitize_filename (replicate 99 97 @ [95, 98]) = replicate 99 97 @ [95]"
proof -
  let ?s = "replicate 99 97 @ [95, 98 :: nat]"
  have a: "\<not> ws_or_us 97" by (simp add: ws_or_us_def is_space_def)
  have "collapsed [95, 98]" by (simp add: is_space_def)
  with a have c: "collapsed ?s" by (rule collapsed_replicate)
  have i: "set ?s \<inter> set invalid_chars = {}"
    by (simp add: invalid_chars_def)
  have "?s = [] \<or> (hd ?s \<notin> set [95, 32] \<and> last ?s \<notin> set [95, 32])"
    by (simp add: hd_append)
  then have "str_strip ?s [95, 32] = ?s" by (rule str_strip_id)
  with sanitize_filename_normal [OF c i] show ?thesis by simp
qed

text \<open>
  C8: the output of \<open>sanitize_filename\<close> has at most 100 characters and none of them is
  one of the reserved characters \<open>< > : " / \ | ? *\<close>.
\<close>

theorem sanitize_filename_bounded_clean:
  "length (sanitize_filename s) \<le> 100 \<and> set (sanitize_filename s) \<inter> set invalid_chars = {}"
proof
  have "length (take 100 (str_strip (re_sub_ws_us (unreserve s)) [95, 32])) \<le> 100"
    by simp
  then show "length (sanitize_filename s) \<le> 100"
    by (simp only: sanitize_filename_steps)
next
  show "set (sanitize_filename s) \<inter> set invalid_chars = {}"
    by (rule set_sanitize_filename)
qed

text \<open>
  C3, as the code has it: \<open>sanitize_filename\<close> returns the empty string exactly for the
  inputs all of whose characters are reserved characters, whitespace or underscores (the
  empty input among them); every other input gives a non-empty name.  A character
  outside the reserved set is not enough: whitespace and underscores are collapsed and
  then stripped.
\<close>

theorem sanitize_filename_empty_iff:
  "sanitize_filename s = [] \<longleftrightarrow> (\<forall>c\<in>set s. c \<in> set invalid_chars \<or> is_space c \<or> c = 95)"
proof -
  let ?u = "re_sub_ws_us (unreserve s)"
  have sp: "is_space 32" by (simp add: is_space_def)
  have "sanitize_filename s = [] \<longleftrightarrow> str_strip ?u [95, 32] = []"
    by (simp add: sanitize_filename_steps)
  also have "\<dots> \<longleftrightarrow> (\<forall>c\<in>set ?u. c = 95 \<or> c = 32)"
    by (simp add: str_strip_Nil)
  also have "\<dots> \<longleftrightarrow> (\<forall>c\<in>set ?u. ws_or_us c)"
    using collapsed_sep [OF collapsed_re_sub, of _ "unreserve s"] sp
    by (auto simp: ws_or_us_def)
  also have "\<dots> \<longleftrightarrow> (\<forall>c\<in>set (unreserve s). ws_or_us c)"
    by (rule re_sub_all_sep)
  also have "\<dots> \<longleftrightarrow> (\<forall>c\<in>set s. c \<in> set invalid_chars \<or> is_space c \<or> c = 95)"
    by (auto simp: unreserve_def ws_or_us_def)
  finally show ?thesis .
qed

theorem sanitize_filename_empty_iff_witness:
  "sanitize_filename (str ''a?'') \<noteq> [] \<and> sanitize_filename (str ''? _'') = []"
proof -
  have "sanitize_filename (str ''a?'') \<noteq> []"
    using sanitize_filename_empty_iff [of "str ''a?''"]
    by (simp add: str_def invalid_chars_def is_space_def)
  moreover have "sanitize_filename (str ''? _'') = []"
    using sanitize_filename_empty_iff [of "str ''? _''"]
    by (simp add: str_def invalid_chars_def is_space_def)
  ultimately show ?thesis by simp
qed

text \<open>
  The claim as stated fails on a single space: the input is not empty and its character
  is not reserved, yet the result is empty.
\<close>

theorem sanitize_filename_space_empty:
  "str '' '' \<noteq> [] \<and> 32 \<in> set (str '' '') \<and> 32 \<notin> set invalid_chars \<and>
   sanitize_filename (str '' '') = []"
  by (simp add: str_def invalid_chars_def sanitize_filename_def str_replace_def ws_or_us_def
      is_space_def str_strip_def)

text \<open>
  C10, as the code has it: a second application of \<open>sanitize_filename\<close> changes the
  result exactly when the first result ends in an underscore, which only the cut at 100
  characters can leave there; so the function is idempotent on every input whose
  sanitized name is shorter than 100 characters.
\<close>

theorem sanitize_filename_twice:
  "(sanitize_filename (sanitize_filename s) = sanitize_filename s \<longleftrightarrow>
      (sanitize_filename s = [] \<or> last (sanitize_filename s) \<noteq> 95))
   \<and> (length (sanitize_filename s) < 100 \<longrightarrow>
        sanitize_filename (sanitize_filename s) = sanitize_filename s)"
  using sanitize_filename_twice_iff [of s] sanitize_filename_short_last [of s] by blast

theorem sanitize_filename_twice_witness:
  "sanitize_filename (str ''a b'') = str ''a_b'' \<and> length (str ''a_b'') < 100 \<and>
   sanitize_filename (sanitize_filename (str ''a b'')) = sanitize_filename (str ''a b'')"
proof -
  have e: "sanitize_filename (str ''a b'') = str ''a_b''"
    by (simp add: str_def invalid_chars_def sanitize_filename_def str_replace_def ws_or_us_def
        is_space_def str_strip_def)
  have "length (sanitize_filename (str ''a b'')) < 100"
    unfolding e by (simp add: str_def)
  with sanitize_filename_twice [of "str ''a b''"] e show ?thesis
    unfolding e by (simp add: str_def)
qed

text \<open>
  Idempotence fails on 99 letters \<open>a\<close> followed by \<open>_b\<close>: the first application cuts
  the name after the underscore, the second strips that underscore.
\<close>

theorem sanitize_filename_not_idempotent:
  "sanitize_filename (sanitize_filename (replicate 99 97 @ [95, 98])) \<noteq>
   sanitize_filename (replicate 99 97 @ [95, 98])"
  using sanitize_filename_twice_iff [of "replicate 99 97 @ [95, 98]"]
  by (simp add: sanitize_long_name)

section \<open>Properties of the hierarchy\<close>

lemma roots_place_page:
  "roots (place_page ids h p) = roots h @ (if is_root ids p then [p] else [])"
  by (simp add: place_page_def is_root_def Let_def split: option.splits)

lemma children_place_page:
  "get_children (children_map (place_page ids h p)) k =
   get_children (children_map h) k @ (if child_of ids k p then [p] else [])"
  by (simp add: place_page_def is_root_def child_of_def get_children_def Let_def split: option.splits)

lemma nonempty_place_page:
  "children_map h k \<noteq> Some [] \<Longrightarrow> children_map (place_page ids h p) k \<noteq> Some []"
  by (simp add: place_page_def Let_def split: option.splits)

lemma roots_foldl_place_page:
  "roots (foldl (place_page ids) h ps) = roots h @ filter (is_root ids) ps"
  by (induction ps arbitrary: h) (simp_all add: roots_place_page)

lemma children_foldl_place_page:
  "get_children (children_map (foldl (place_page ids) h ps)) k =
   get_children (children_map h) k @ filter (child_of ids k) ps"
  by (induction ps arbitrary: h) (simp_all add: children_place_page)

lemma nonempty_foldl_place_page:
  "children_map h k \<noteq> Some [] \<Longrightarrow> children_map (foldl (place_page ids) h ps) k \<noteq> Some []"
  by (induction ps arbitrary: h) (simp_all add: nonempty_place_page)

lemma roots_build_hierarchy:
  "roots (build_hierarchy pages) = filter (is_root (export_page_ids pages)) pages"
  by (simp add: build_hierarchy_def roots_foldl_place_page)

lemma children_build_hierarchy:
  "get_children (children_map (build_hierarchy pages)) k =
   filter (child_of (export_page_ids pages) k) pages"
  unfolding build_hierarchy_def children_foldl_place_page
  by (simp add: get_children_def)

lemma children_map_build_hierarchy:
  "children_map (build_hierarchy pages) k = Some cs \<longleftrightarrow>
   cs \<noteq> [] \<and> cs = filter (child_of (export_page_ids pages) k) pages"
proof -
  have "children_map (build_hierarchy pages) k \<noteq> Some []"
    unfolding build_hierarchy_def by (rule nonempty_foldl_place_page) simp
  with children_build_hierarchy [of pages k] show ?thesis
    by (auto simp: get_children_def split: option.splits)
qed

lemma count_list_filter: "count_list (filter P xs) x = (if P x then count_list xs x else 0)"
  by (induction xs) auto

lemma count_list_distinct: "distinct xs \<Longrightarrow> x \<in> set xs \<Longrightarrow> count_list xs x = 1"
  by (induction xs) (auto simp: count_list_0_iff)

text \<open>
  C1: every page of the export list is placed exactly once.  A page without ancestors,
  or whose last ancestor is not the id of an exported page, occurs once in \<open>roots\<close> and
  in no list of \<open>children_map\<close>; any other page occurs once in the list of its last
  ancestor, in no other list, and not in \<open>roots\<close>.  The export list holds each page
  once (\<open>distinct pages\<close>).
\<close>

theorem build_hierarchy_placement:
  assumes "distinct pages" and "p \<in> set pages"
  shows "let h = build_hierarchy pages; ancs = get_ancestors p; ids = export_page_ids pages in
    if ancs = [] \<or> last ancs \<notin> ids
    then count_list (roots h) p = 1 \<and> (\<forall>k cs. children_map h k = Some cs \<longrightarrow> p \<notin> set cs)
    else p \<notin> set (roots h) \<and>
         (\<exists>cs. children_map h (last ancs) = Some cs \<and> count_list cs p = 1) \<and>
         (\<forall>k cs. k \<noteq> last ancs \<longrightarrow> children_map h k = Some cs \<longrightarrow> p \<notin> set cs)"
proof -
  let ?ids = "export_page_ids pages"
  let ?h = "build_hierarchy pages"
  have c: "count_list pages p = 1"
    using assms by (rule count_list_distinct)
  show ?thesis
  proof (cases "is_root ?ids p")
    case True
    have "count_list (roots ?h) p = 1"
      using True c by (simp add: roots_build_hierarchy count_list_filter)
    moreover have "p \<notin> set cs" if "children_map ?h k = Some cs" for k cs
      using that True by (auto simp: children_map_build_hierarchy child_of_def)
    ultimately show ?thesis
      using True by (simp add: is_root_def Let_def)
  next
    case False
    let ?k = "last (get_ancestors p)"
    have ch: "child_of ?ids ?k p"
      using False by (simp add: child_of_def)
    let ?cs = "filter (child_of ?ids ?k) pages"
    have "p \<in> set ?cs" using ch assms(2) by simp
    then have ne: "?cs \<noteq> []" by (metis empty_iff list.set(1))
    then have m: "children_map ?h ?k = Some ?cs"
      by (simp add: children_map_build_hierarchy)
    have "count_list ?cs p = 1"
      using ch c by (simp add: count_list_filter)
    with m have 1: "\<exists>cs. children_map ?h ?k = Some cs \<and> count_list cs p = 1"
      by blast
    have 2: "p \<notin> set (roots ?h)"
      using False by (simp add: roots_build_hierarchy)
    have 3: "p \<notin> set cs" if "k \<noteq> ?k" "children_map ?h k = Some cs" for k cs
      using that by (auto simp: children_map_build_hierarchy child_of_def)
    from 1 2 3 False show ?thesis
      by (simp add: is_root_def Let_def)
  qed
qed

theorem build_hierarchy_placement_witness:
  "(let a = \<lparr>page_id = str ''1'', title = str ''Home'', ancestors = None, version_when = None,
              body_storage = None, labels = None\<rparr>;
        b = \<lparr>page_id = str ''2'', title = str ''Notes'', ancestors = Some [str ''1''],
              version_when = None, body_storage = None, labels = None\<rparr>;
        h = build_hierarchy [a, b]
    in distinct [a, b] \<and> b \<in> set [a, b] \<and> b \<notin> set (roots h) \<and>
       (\<exists>cs. children_map h (str ''1'') = Some cs \<and> count_list cs b = 1))"
  using build_hierarchy_placement [of
      "[\<lparr>page_id = str ''1'', title = str ''Home'', ancestors = None, version_when = None,
              body_storage = None, labels = None\<rparr>,
        \<lparr>page_id = str ''2'', title = str ''Notes'', ancestors = Some [str ''1''],
              version_when = None, body_storage = None, labels = None\<rparr>]"
      "\<lparr>page_id = str ''2'', title = str ''Notes'', ancestors = Some [str ''1''],
              version_when = None, body_storage = None, labels = None\<rparr>"]
  by (simp add: Let_def get_ancestors_def export_page_ids_def str_def)

section \<open>Properties of the path assignment\<close>
























section \<open>Properties of the link substitution\<close>

lemma no_overlapD:
  assumes "\<not> overlap k v"
  shows "\<not> sublist k v" "\<not> sublist v k" "k \<noteq> []" "v \<noteq> []"
    "\<forall>x. x \<noteq> [] \<longrightarrow> suffix x v \<longrightarrow> \<not> prefix x k"
    "\<forall>x. x \<noteq> [] \<longrightarrow> prefix x v \<longrightarrow> \<not> suffix x k"
  using assms by (auto simp: overlap_def in_set_suffixes in_set_prefixes)

lemma prefix_replace_from:
  assumes nv: "\<not> sublist v k" and ns: "\<forall>x. x \<noteq> [] \<longrightarrow> prefix x v \<longrightarrow> \<not> suffix x k"
  shows "suffix k' k \<Longrightarrow> prefix k' (replace_from old v s) \<Longrightarrow> prefix k' s"
proof (induction s arbitrary: k')
  case Nil
  then show ?case by simp
next
  case (Cons c cs)
  show ?case
  proof (cases "old \<noteq> [] \<and> prefix old (c # cs)")
    case True
    with Cons.prems(2) have p: "prefix k' (v @ replace_from old v (drop (length old) (c # cs)))"
      by simp
    have "k' = []"
    proof (rule ccontr)
      assume ne: "k' \<noteq> []"
      from p consider "prefix k' v" | zs where "k' = v @ zs"
        by (auto simp: prefix_append)
      then show False
      proof cases
        case 1
        with ne Cons.prems(1) ns show False by blast
      next
        case 2
        then have "sublist v k'" by auto
        with Cons.prems(1) have "sublist v k"
          by (meson suffix_imp_sublist sublist_order.order.trans)
        with nv show False by simp
      qed
    qed
    then show ?thesis by simp
  next
    case False
    with Cons.prems(2) have p: "prefix k' (c # replace_from old v cs)" by auto
    show ?thesis
    proof (cases k')
      case Nil
      then show ?thesis by simp
    next
      case (Cons a k'')
      with p have a: "a = c" and p': "prefix k'' (replace_from old v cs)" by auto
      from Cons Cons.prems(1) have "suffix k'' k" by (metis suffix_ConsD)
      then have "prefix k'' cs" using p' by (rule Cons.IH)
      with a Cons show ?thesis by simp
    qed
  qed
qed

lemma replace_from_keeps_absent:
  "\<not> overlap k v \<Longrightarrow> \<not> sublist k s \<Longrightarrow> \<not> sublist k (replace_from old v s)"
proof (induction old v s rule: replace_from.induct)
  case (1 old new)
  then show ?case by simp
next
  case (2 old new c cs)
  note no = no_overlapD [OF "2.prems"(1)]
  show ?case
  proof (cases "old \<noteq> [] \<and> prefix old (c # cs)")
    case True
    let ?r = "replace_from old new (drop (length old) (c # cs))"
    have "\<not> sublist k (drop (length old) (c # cs))"
      using "2.prems"(2) by (meson sublist_drop sublist_order.order.trans)
    with "2.IH"(1) [OF True "2.prems"(1)] have r: "\<not> sublist k ?r" by blast
    have "\<not> sublist k (new @ ?r)"
    proof
      assume "sublist k (new @ ?r)"
      then consider "sublist k new" | "sublist k ?r"
        | k1 k2 where "k = k1 @ k2" "suffix k1 new" "prefix k2 ?r"
        by (auto simp: sublist_append)
      then show False
      proof cases
        case 1
        with no(1) show False by simp
      next
        case 2
        with r show False by simp
      next
        case 3
        show False
        proof (cases "k1 = []")
          case True
          with 3 have "prefix k ?r" by simp
          with r show False by auto
        next
          case False
          moreover from 3(1) have "prefix k1 k" by simp
          ultimately show False using no(5) 3(2) by blast
        qed
      qed
    qed
    with True show ?thesis by simp
  next
    case False
    have "\<not> sublist k cs"
      using "2.prems"(2) by (auto simp: sublist_Cons_right)
    with "2.IH"(2) [OF False "2.prems"(1)] have r: "\<not> sublist k (replace_from old new cs)" by blast
    have "\<not> prefix k (replace_from old new (c # cs))"
    proof
      assume "prefix k (replace_from old new (c # cs))"
      with prefix_replace_from [OF no(2) no(6), of k old "c # cs"] have "prefix k (c # cs)"
        by simp
      with "2.prems"(2) show False by auto
    qed
    with False r show ?thesis by (auto simp: sublist_Cons_right)
  qed
qed

lemma replace_from_removes:
  "\<not> overlap old v \<Longrightarrow> \<not> sublist old (replace_from old v s)"
proof (induction old v s rule: replace_from.induct)
  case (1 old new)
  then show ?case using no_overlapD(3) by auto
next
  case (2 old new c cs)
  note no = no_overlapD [OF "2.prems"(1)]
  show ?case
  proof (cases "old \<noteq> [] \<and> prefix old (c # cs)")
    case True
    let ?r = "replace_from old new (drop (length old) (c # cs))"
    from "2.IH"(1) [OF True "2.prems"(1)] have r: "\<not> sublist old ?r" .
    have "\<not> sublist old (new @ ?r)"
    proof
      assume "sublist old (new @ ?r)"
      then consider "sublist old new" | "sublist old ?r"
        | k1 k2 where "old = k1 @ k2" "suffix k1 new" "prefix k2 ?r"
        by (auto simp: sublist_append)
      then show False
      proof cases
        case 1
        with no(1) show False by simp
      next
        case 2
        with r show False by simp
      next
        case 3
        show False
        proof (cases "k1 = []")
          case True
          with 3 have "prefix old ?r" by simp
          with r show False by auto
        next
          case False
          moreover from 3(1) have "prefix k1 old" by simp
          ultimately show False using no(5) 3(2) by blast
        qed
      qed
    qed
    with True show ?thesis by simp
  next
    case False
    from "2.IH"(2) [OF False "2.prems"(1)] have r: "\<not> sublist old (replace_from old new cs)" .
    have "\<not> prefix old (replace_from old new (c # cs))"
    proof
      assume "prefix old (replace_from old new (c # cs))"
      with prefix_replace_from [OF no(2) no(6), of old old "c # cs"] have "prefix old (c # cs)"
        by simp
      with False no(3) show False by simp
    qed
    with False r show ?thesis by (auto simp: sublist_Cons_right)
  qed
qed

lemma overlap_iff:
  "\<not> overlap k v \<longleftrightarrow>
     \<not> sublist k v \<and> \<not> sublist v k \<and>
     (\<forall>x. x \<noteq> [] \<longrightarrow> \<not> (suffix x v \<and> prefix x k)) \<and>
     (\<forall>x. x \<noteq> [] \<longrightarrow> \<not> (prefix x v \<and> suffix x k))"
  by (auto simp: overlap_def in_set_suffixes in_set_prefixes)

lemma replace_urls_no_keys:
  "\<forall>k\<in>K \<union> fst ` set m. \<forall>v\<in>snd ` set m. \<not> overlap k v \<Longrightarrow>
   \<forall>k\<in>K. \<not> sublist k t \<Longrightarrow>
   \<forall>k\<in>K \<union> fst ` set m. \<not> sublist k (replace_urls t m)"
proof (induction m arbitrary: t K)
  case Nil
  then show ?case by (simp add: replace_urls_def)
next
  case (Cons item m)
  obtain k1 v1 where item: "item = (k1, v1)" by (cases item)
  from Cons.prems(1) item have o1: "\<not> overlap k1 v1" by simp
  then have "k1 \<noteq> []" by (rule no_overlapD)
  then have t1: "str_replace t k1 v1 = replace_from k1 v1 t" by (simp add: str_replace_def)
  have run: "replace_urls t (item # m) = replace_urls (replace_from k1 v1 t) m"
    by (simp add: replace_urls_def item t1)
  have a: "\<forall>k\<in>insert k1 K. \<not> sublist k (replace_from k1 v1 t)"
  proof
    fix k assume "k \<in> insert k1 K"
    then consider "k = k1" | "k \<in> K" by auto
    then show "\<not> sublist k (replace_from k1 v1 t)"
    proof cases
      case 1
      with o1 show ?thesis by (simp add: replace_from_removes)
    next
      case 2
      with Cons.prems item have "\<not> overlap k v1" "\<not> sublist k t" by auto
      then show ?thesis by (rule replace_from_keeps_absent)
    qed
  qed
  have b: "\<forall>k\<in>insert k1 K \<union> fst ` set m. \<forall>v\<in>snd ` set m. \<not> overlap k v"
    using Cons.prems(1) item by auto
  from Cons.IH [OF b a] have "\<forall>k\<in>insert k1 K \<union> fst ` set m. \<not> sublist k (replace_urls (replace_from k1 v1 t) m)" .
  then show ?case
    unfolding run using item by auto
qed

lemma replace_from_absent: "\<not> sublist old s \<Longrightarrow> replace_from old new s = s"
proof (induction s)
  case Nil
  then show ?case by simp
next
  case (Cons c cs)
  then have "\<not> prefix old (c # cs)" "\<not> sublist old cs"
    by (auto simp: sublist_Cons_right)
  with Cons.IH show ?case by simp
qed

lemma str_replace_absent: "\<not> sublist old s \<Longrightarrow> str_replace s old new = s"
proof -
  assume a: "\<not> sublist old s"
  then have "old \<noteq> []" by auto
  with a show ?thesis by (simp add: str_replace_def replace_from_absent)
qed

lemma replace_urls_absent:
  "\<forall>k\<in>fst ` set url_mapping. \<not> sublist k md \<Longrightarrow> replace_urls md url_mapping = md"
  unfolding replace_urls_def
  by (induction url_mapping) (simp_all add: str_replace_absent)

text \<open>
  C7, as the code has it: when no key of \<open>url_mapping\<close> overlaps a value -- no key is a
  substring of a value, no value is a substring of a key, and no non-empty string is the
  end of one and the start of the other -- then after one pass of the link substitution
  no key occurs in the text, and a second pass yields the same text.  That no value
  contains a key is not enough: a key can come about where an inserted value meets the
  text around it.
\<close>

theorem replace_urls_twice:
  assumes "\<forall>k\<in>fst ` set url_mapping. \<forall>v\<in>snd ` set url_mapping.
      \<not> sublist k v \<and> \<not> sublist v k \<and>
      (\<forall>x. x \<noteq> [] \<longrightarrow> \<not> (suffix x v \<and> prefix x k)) \<and>
      (\<forall>x. x \<noteq> [] \<longrightarrow> \<not> (prefix x v \<and> suffix x k))"
  shows "(\<forall>k\<in>fst ` set url_mapping. \<not> sublist k (replace_urls md url_mapping)) \<and>
    replace_urls (replace_urls md url_mapping) url_mapping = replace_urls md url_mapping"
proof -
  from assms have "\<forall>k\<in>{} \<union> fst ` set url_mapping. \<forall>v\<in>snd ` set url_mapping. \<not> overlap k v"
    by (simp add: overlap_iff)
  then have "\<forall>k\<in>{} \<union> fst ` set url_mapping. \<not> sublist k (replace_urls md url_mapping)"
    by (rule replace_urls_no_keys) simp
  then have none: "\<forall>k\<in>fst ` set url_mapping. \<not> sublist k (replace_urls md url_mapping)"
    by simp
  then have "replace_urls (replace_urls md url_mapping) url_mapping = replace_urls md url_mapping"
    by (rule replace_urls_absent)
  with none show ?thesis by simp
qed

lemma example_no_overlap:
  "\<not> overlap (str ''diagram v1.png'') (str ''attachments/diagram_v1.png'')"
  by (simp add: overlap_def str_def sublist_Cons_right suffix_to_prefix)

theorem replace_urls_twice_witness:
  "replace_urls (str ''see diagram v1.png'')
      [(str ''diagram v1.png'', str ''attachments/diagram_v1.png'')] =
     str ''see attachments/diagram_v1.png'' \<and>
   replace_urls (replace_urls (str ''see diagram v1.png'')
        [(str ''diagram v1.png'', str ''attachments/diagram_v1.png'')])
      [(str ''diagram v1.png'', str ''attachments/diagram_v1.png'')] =
   replace_urls (str ''see diagram v1.png'')
      [(str ''diagram v1.png'', str ''attachments/diagram_v1.png'')]"
proof -
  let ?m = "[(str ''diagram v1.png'', str ''attachments/diagram_v1.png'')]"
  have e: "replace_urls (str ''see diagram v1.png'') ?m = str ''see attachments/diagram_v1.png''"
    by (simp add: replace_urls_def str_replace_def str_def)
  have "\<forall>k\<in>fst ` set ?m. \<forall>v\<in>snd ` set ?m.
      \<not> sublist k v \<and> \<not> sublist v k \<and>
      (\<forall>x. x \<noteq> [] \<longrightarrow> \<not> (suffix x v \<and> prefix x k)) \<and>
      (\<forall>x. x \<noteq> [] \<longrightarrow> \<not> (prefix x v \<and> suffix x k))"
    using example_no_overlap by (simp add: overlap_iff)
  from replace_urls_twice [OF this, of "str ''see diagram v1.png''"] e show ?thesis
    by simp
qed

text \<open>
  With the single entry \<open>ab\<close> to \<open>b\<close>, whose value does not contain its key, the text
  \<open>aab\<close> becomes \<open>ab\<close> in one pass and \<open>b\<close> in two.
\<close>

theorem replace_urls_rewrites_again:
  "\<not> sublist (str ''ab'') (str ''b'') \<and>
   replace_urls (str ''aab'') [(str ''ab'', str ''b'')] = str ''ab'' \<and>
   replace_urls (replace_urls (str ''aab'') [(str ''ab'', str ''b'')]) [(str ''ab'', str ''b'')] = str ''b'' \<and>
   replace_urls (replace_urls (str ''aab'') [(str ''ab'', str ''b'')]) [(str ''ab'', str ''b'')] \<noteq>
   replace_urls (str ''aab'') [(str ''ab'', str ''b'')]"
  by (simp add: replace_urls_def str_replace_def str_def sublist_Cons_right)

section \<open>Properties of download\_attachments\<close>

lemma map_of_dict_set: "map_of (dict_set k v d) = (map_of d)(k \<mapsto> v)"
  by (induction d) (auto simp: fun_eq_iff)

lemma keys_dict_set: "fst ` set (dict_set k v d) = insert k (fst ` set d)"
proof -
  have "fst ` set (dict_set k v d) = dom (map_of (dict_set k v d))"
    by (simp add: dom_map_of_conv_image_fst)
  also have "\<dots> = insert k (dom (map_of d))"
    by (simp add: map_of_dict_set)
  also have "\<dots> = insert k (fst ` set d)"
    by (simp add: dom_map_of_conv_image_fst)
  finally show ?thesis .
qed

lemma distinct_dict_set: "distinct (map fst d) \<Longrightarrow> distinct (map fst (dict_set k v d))"
proof (induction d)
  case Nil
  then show ?case by simp
next
  case (Cons a d)
  then show ?case
    using keys_dict_set [of k v d] by (cases a) auto
qed

text \<open>
  One turn of the loop: the mapping gets the two entries exactly when the attachment is
  downloaded, and what is left on the disk does not depend on the mapping.
\<close>

lemma download_one_eq:
  "download_one env dir (m, fs) a =
     (if download_ok env dir fs a then add_entries m a else m, snd (download_one env dir ([], fs) a))"
  by (auto simp: download_one_def download_ok_def add_entries_def write_file_def Let_def
      split: sum.splits write_outcome.splits)

lemma download_one_get_fails:
  "session_get env (full_url env a) = Inl e \<Longrightarrow> download_one env dir (m, fs) a = (m, fs)"
  by (simp add: download_one_def Let_def)

lemma download_one_changed:
  assumes "fst (download_one env dir (m, fs) a) \<noteq> m"
  shows "\<exists>content. session_get env (full_url env a) = Inr content \<and>
     write_attempt env fs (local_path dir a) = Written \<and>
     files (snd (download_one env dir (m, fs) a)) (local_path dir a) = Some (Bytes content)"
  using assms
  by (auto simp: download_one_def write_file_def Let_def split: sum.splits write_outcome.splits)

lemma foldl_download_one:
  "fst (foldl (download_one env dir) (m, fs) as) = foldl add_entries m (downloaded env dir fs as)"
proof (induction as arbitrary: m fs)
  case Nil
  then show ?case by simp
next
  case (Cons a as)
  show ?case
    by (subst foldl_Cons, subst download_one_eq) (simp add: Cons.IH)
qed

lemma downloaded_listed:
  "b \<in> set (downloaded env dir fs as) \<Longrightarrow>
     b \<in> set as \<and> (\<exists>content. session_get env (full_url env b) = Inr content)"
  by (induction as arbitrary: fs) (auto simp: download_ok_def split: if_splits sum.splits)

lemma downloaded_attachments_listed:
  assumes "b \<in> set (downloaded_attachments env pid page_path fs)"
  shows "\<exists>results content. get_attachments_from_content env pid = Inr results \<and> b \<in> set results \<and>
     session_get env (full_url env b) = Inr content"
proof (cases "get_attachments_from_content env pid")
  case (Inl e)
  with assms show ?thesis
    by (simp add: downloaded_attachments_def)
next
  case (Inr results)
  show ?thesis
  proof (cases "mkdir env (path_join page_path (str ''attachments'')) fs")
    case (Inl e)
    with assms Inr show ?thesis
      by (simp add: downloaded_attachments_def)
  next
    case made: (Inr fs1)
    with assms Inr
    have "b \<in> set (downloaded env (path_join page_path (str ''attachments'')) fs1 results)"
      by (simp add: downloaded_attachments_def)
    from downloaded_listed [OF this] Inr show ?thesis
      by blast
  qed
qed

lemma map_of_add_entries:
  "map_of (add_entries m a) k = (if has_key k a then Some (attachment_link a) else map_of m k)"
  by (auto simp: add_entries_def map_of_dict_set has_key_def)

lemma map_of_foldl_add_entries:
  "map_of (foldl add_entries m as) k =
     (case last_with_key k as of None \<Rightarrow> map_of m k | Some b \<Rightarrow> Some (attachment_link b))"
  by (induction as arbitrary: m) (auto simp: map_of_add_entries split: option.splits)

lemma distinct_foldl_add_entries:
  "distinct (map fst m) \<Longrightarrow> distinct (map fst (foldl add_entries m as))"
  by (induction as arbitrary: m) (simp_all add: add_entries_def distinct_dict_set)

lemma last_with_key_Some: "last_with_key k as = Some b \<Longrightarrow> b \<in> set as \<and> has_key k b"
  by (induction as) (auto split: option.splits if_splits)

lemma last_with_key_None: "last_with_key k as = None \<longleftrightarrow> (\<forall>a\<in>set as. \<not> has_key k a)"
  by (induction as) (auto split: option.splits)

lemma download_attachments_fst:
  "fst (download_attachments env pid page_path fs) =
     foldl add_entries [] (downloaded_attachments env pid page_path fs)"
  by (auto simp: download_attachments_def downloaded_attachments_def foldl_download_one Let_def
      split: sum.splits)

lemma download_attachments_map_of:
  "map_of (fst (download_attachments env pid page_path fs)) k =
     map_option attachment_link (last_with_key k (downloaded_attachments env pid page_path fs))"
  by (simp add: download_attachments_fst map_of_foldl_add_entries split: option.splits)

lemma download_attachments_keys:
  "k \<in> fst ` set (fst (download_attachments env pid page_path fs)) \<longleftrightarrow>
     (\<exists>b\<in>set (downloaded_attachments env pid page_path fs). has_key k b)"
proof -
  have "k \<in> fst ` set (fst (download_attachments env pid page_path fs)) \<longleftrightarrow>
      map_of (fst (download_attachments env pid page_path fs)) k \<noteq> None"
    by (simp add: map_of_eq_None_iff)
  also have "\<dots> \<longleftrightarrow> last_with_key k (downloaded_attachments env pid page_path fs) \<noteq> None"
    by (simp add: download_attachments_map_of)
  also have "\<dots> \<longleftrightarrow> (\<exists>b\<in>set (downloaded_attachments env pid page_path fs). has_key k b)"
    by (simp add: last_with_key_None)
  finally show ?thesis .
qed

lemma count_entries:
  assumes "distinct (map fst m)" and "map_of m t = Some x" and "map_of m d = Some y"
  shows "length (filter (\<lambda>item. fst item = t \<or> fst item = d) m) = card {t, d}"
proof -
  have "length (filter (\<lambda>item. fst item = t \<or> fst item = d) m) =
      length (filter (\<lambda>k. k = t \<or> k = d) (map fst m))"
    by (simp add: filter_map comp_def)
  also have "\<dots> = card ({k. k = t \<or> k = d} \<inter> set (map fst m))"
    using assms(1) by (rule distinct_length_filter)
  also have "{k. k = t \<or> k = d} \<inter> set (map fst m) = {t, d}"
    using assms(2,3) by (auto dest!: map_of_SomeD intro: rev_image_eqI)
  finally show ?thesis .
qed

lemma sanitize_attachment_examples:
  "sanitize_filename (str ''diagram v1.png'') = str ''diagram_v1.png''"
  "sanitize_filename (str ''a.png'') = str ''a.png''"
  "sanitize_filename (str ''b.png'') = str ''b.png''"
  "sanitize_filename (str ''x.png'') = str ''x.png''"
  "sanitize_filename (str ''y.png'') = str ''y.png''"
  "sanitize_filename (str ''xa.png'') = str ''xa.png''"
  by (simp_all add: str_def invalid_chars_def sanitize_filename_def str_replace_def ws_or_us_def
      is_space_def str_strip_def)

text \<open>The run of the loop on the site with four attachments.\<close>

lemma mixed_downloaded:
  "downloaded_attachments mixed_env (str ''A'') [str ''out'', str ''Home''] empty_disk =
     [\<lparr>att_title = str ''a.png'', att_download = str ''/d/a''\<rparr>,
      \<lparr>att_title = str ''diagram v1.png'', att_download = str ''/download/d1''\<rparr>]"
proof -
  have s: "str ''a.png'' \<noteq> str ''y.png''" "str ''x.png'' \<noteq> str ''y.png''"
    "str ''diagram_v1.png'' \<noteq> str ''y.png''"
    "str ''a.png'' \<noteq> []" "str ''a.png'' \<noteq> [46]" "str ''x.png'' \<noteq> []" "str ''x.png'' \<noteq> [46]"
    "str ''y.png'' \<noteq> []" "str ''y.png'' \<noteq> [46]"
    "str ''diagram_v1.png'' \<noteq> []" "str ''diagram_v1.png'' \<noteq> [46]"
    "str ''attachments'' \<noteq> []" "str ''attachments'' \<noteq> [46]"
    by (simp_all add: str_def)
  have u: "full_url mixed_env \<lparr>att_title = str ''a.png'', att_download = str ''/d/a''\<rparr> =
      str ''https://wiki.example/d/a''"
    "full_url mixed_env \<lparr>att_title = str ''x.png'', att_download = str ''/d/x''\<rparr> =
      str ''https://wiki.example/d/x''"
    "full_url mixed_env \<lparr>att_title = str ''y.png'', att_download = str ''/d/y''\<rparr> =
      str ''https://wiki.example/d/y''"
    "full_url mixed_env \<lparr>att_title = str ''diagram v1.png'', att_download = str ''/download/d1''\<rparr> =
      str ''https://wiki.example/download/d1''"
    by (simp_all add: full_url_def mixed_env_def example_env_def str_def)
  have g: "session_get mixed_env (str ''https://wiki.example/d/a'') = Inr [1]"
    "session_get mixed_env (str ''https://wiki.example/d/x'') = Inl RemoteError"
    "session_get mixed_env (str ''https://wiki.example/d/y'') = Inr [1]"
    "session_get mixed_env (str ''https://wiki.example/download/d1'') = Inr [1]"
    by (simp_all add: mixed_env_def example_env_def str_def)
  have w: "\<And>fs p. write_attempt mixed_env fs p =
      (if p = [str ''out'', str ''Home'', str ''attachments'', str ''y.png'']
       then WriteFailed (Bytes []) else Written)"
    by (simp add: mixed_env_def)
  have l: "get_attachments_from_content mixed_env (str ''A'') =
      Inr [\<lparr>att_title = str ''a.png'', att_download = str ''/d/a''\<rparr>,
           \<lparr>att_title = str ''x.png'', att_download = str ''/d/x''\<rparr>,
           \<lparr>att_title = str ''y.png'', att_download = str ''/d/y''\<rparr>,
           \<lparr>att_title = str ''diagram v1.png'', att_download = str ''/download/d1''\<rparr>]"
    by (simp add: mixed_env_def)
  have mk: "\<And>p fs. mkdir mixed_env p fs = Inr (fs\<lparr>dirs := dirs fs \<union> set (prefixes p)\<rparr>)"
    by (simp add: mkdir_def mixed_env_def example_env_def)
  show ?thesis
    by (simp add: downloaded_attachments_def l mk download_ok_def u g w local_path_def
          path_join_def sanitize_attachment_examples s)
qed

text \<open>
  C5, as the code has it: for an attachment that \<open>download_attachments\<close> downloads, the
  returned \<open>url_mapping\<close> has an entry keyed by the filename and an entry keyed by the
  download reference: two entries when the two strings differ, one when they are equal.
  Each of the two keys maps to \<open>attachments/\<close> followed by the sanitized filename of the
  last downloaded attachment that has the key as its filename or download reference (the
  mapping is a dict: the last assignment stays).  So both keys map to the path of the
  attachment itself, \<open>attachments/\<close> followed by its own sanitized filename, exactly when
  the last downloaded attachment with each of the two strings has the same sanitized
  filename as this one.
\<close>

theorem download_attachments_maps_both:
  assumes "a \<in> set (downloaded_attachments env pid page_path fs)"
  shows "(\<exists>b. last_with_key (att_title a) (downloaded_attachments env pid page_path fs) = Some b \<and>
            map_of (fst (download_attachments env pid page_path fs)) (att_title a) =
              Some (str ''attachments/'' @ sanitize_filename (att_title b))) \<and>
         (\<exists>b. last_with_key (att_download a) (downloaded_attachments env pid page_path fs) = Some b \<and>
            map_of (fst (download_attachments env pid page_path fs)) (att_download a) =
              Some (str ''attachments/'' @ sanitize_filename (att_title b))) \<and>
         (map_of (fst (download_attachments env pid page_path fs)) (att_title a) =
              Some (str ''attachments/'' @ sanitize_filename (att_title a)) \<and>
          map_of (fst (download_attachments env pid page_path fs)) (att_download a) =
              Some (str ''attachments/'' @ sanitize_filename (att_title a))
          \<longleftrightarrow>
          (\<forall>b. last_with_key (att_title a) (downloaded_attachments env pid page_path fs) = Some b \<or>
               last_with_key (att_download a) (downloaded_attachments env pid page_path fs) = Some b
               \<longrightarrow> sanitize_filename (att_title b) = sanitize_filename (att_title a))) \<and>
         (att_title a \<noteq> att_download a \<longrightarrow>
            length (filter (\<lambda>item. fst item = att_title a \<or> fst item = att_download a)
                      (fst (download_attachments env pid page_path fs))) = 2) \<and>
         (att_title a = att_download a \<longrightarrow>
            length (filter (\<lambda>item. fst item = att_title a \<or> fst item = att_download a)
                      (fst (download_attachments env pid page_path fs))) = 1)"
proof -
  let ?done = "downloaded_attachments env pid page_path fs"
  let ?M = "fst (download_attachments env pid page_path fs)"
  from assms have "\<not> (\<forall>b\<in>set ?done. \<not> has_key (att_title a) b)"
    and "\<not> (\<forall>b\<in>set ?done. \<not> has_key (att_download a) b)"
    by (auto simp: has_key_def)
  then obtain bt bd where bt: "last_with_key (att_title a) ?done = Some bt"
    and bd: "last_with_key (att_download a) ?done = Some bd"
    unfolding last_with_key_None [symmetric] by auto
  have t: "map_of ?M (att_title a) = Some (str ''attachments/'' @ sanitize_filename (att_title bt))"
    by (simp add: download_attachments_map_of bt attachment_link_def)
  have d: "map_of ?M (att_download a) = Some (str ''attachments/'' @ sanitize_filename (att_title bd))"
    by (simp add: download_attachments_map_of bd attachment_link_def)
  have dist: "distinct (map fst ?M)"
    unfolding download_attachments_fst by (rule distinct_foldl_add_entries) simp
  have n: "length (filter (\<lambda>item. fst item = att_title a \<or> fst item = att_download a) ?M) =
      card {att_title a, att_download a}"
    using dist t d by (rule count_entries)
  have 1: "\<exists>b. last_with_key (att_title a) ?done = Some b \<and>
      map_of ?M (att_title a) = Some (str ''attachments/'' @ sanitize_filename (att_title b))"
    using bt t by blast
  have 2: "\<exists>b. last_with_key (att_download a) ?done = Some b \<and>
      map_of ?M (att_download a) = Some (str ''attachments/'' @ sanitize_filename (att_title b))"
    using bd d by blast
  have 3: "(map_of ?M (att_title a) = Some (str ''attachments/'' @ sanitize_filename (att_title a)) \<and>
      map_of ?M (att_download a) = Some (str ''attachments/'' @ sanitize_filename (att_title a)))
      \<longleftrightarrow> (\<forall>b. last_with_key (att_title a) ?done = Some b \<or>
               last_with_key (att_download a) ?done = Some b
               \<longrightarrow> sanitize_filename (att_title b) = sanitize_filename (att_title a))"
    unfolding t d bt bd by auto
  have 4: "att_title a \<noteq> att_download a \<longrightarrow>
      length (filter (\<lambda>item. fst item = att_title a \<or> fst item = att_download a) ?M) = 2"
    unfolding n by simp
  have 5: "att_title a = att_download a \<longrightarrow>
      length (filter (\<lambda>item. fst item = att_title a \<or> fst item = att_download a) ?M) = 1"
    unfolding n by simp
  from 1 2 3 4 5 show ?thesis by blast
qed

theorem download_attachments_maps_both_witness:
  "\<lparr>att_title = str ''diagram v1.png'', att_download = str ''/download/d1''\<rparr>
     \<in> set (downloaded_attachments mixed_env (str ''A'') [str ''out'', str ''Home''] empty_disk) \<and>
   map_of (fst (download_attachments mixed_env (str ''A'') [str ''out'', str ''Home''] empty_disk))
      (str ''diagram v1.png'') = Some (str ''attachments/diagram_v1.png'') \<and>
   map_of (fst (download_attachments mixed_env (str ''A'') [str ''out'', str ''Home''] empty_disk))
      (str ''/download/d1'') = Some (str ''attachments/diagram_v1.png'') \<and>
   length (filter (\<lambda>item. fst item = str ''diagram v1.png'' \<or> fst item = str ''/download/d1'')
      (fst (download_attachments mixed_env (str ''A'') [str ''out'', str ''Home''] empty_disk))) = 2"
proof -
  let ?a = "\<lparr>att_title = str ''diagram v1.png'', att_download = str ''/download/d1''\<rparr>"
  have m: "?a \<in> set (downloaded_attachments mixed_env (str ''A'') [str ''out'', str ''Home''] empty_disk)"
    by (simp add: mixed_downloaded)
  have s: "str ''diagram v1.png'' \<noteq> str ''/download/d1''"
    by (simp add: str_def)
  have l: "last_with_key (str ''diagram v1.png'')
        (downloaded_attachments mixed_env (str ''A'') [str ''out'', str ''Home''] empty_disk) = Some ?a"
    "last_with_key (str ''/download/d1'')
        (downloaded_attachments mixed_env (str ''A'') [str ''out'', str ''Home''] empty_disk) = Some ?a"
    by (simp_all add: mixed_downloaded has_key_def)
  from download_attachments_maps_both [OF m] m s l show ?thesis
    by (simp add: sanitize_attachment_examples) (simp add: str_def)
qed

text \<open>
  Two attachments \<open>a.png\<close> and \<open>b.png\<close> with the download reference \<open>/d/1\<close> are both
  downloaded; the entry for \<open>/d/1\<close> is the path of \<open>b.png\<close>, not that of \<open>a.png\<close>, and
  there are three entries for the two attachments.
\<close>

theorem download_attachments_shared_link:
  "fst (download_attachments shared_link_env (str ''A'') [str ''out''] empty_disk) =
     [(str ''a.png'', str ''attachments/a.png''), (str ''/d/1'', str ''attachments/b.png''),
      (str ''b.png'', str ''attachments/b.png'')] \<and>
   files (snd (download_attachments shared_link_env (str ''A'') [str ''out''] empty_disk))
     [str ''out'', str ''attachments'', str ''a.png''] = Some (Bytes [1]) \<and>
   map_of (fst (download_attachments shared_link_env (str ''A'') [str ''out''] empty_disk))
     (str ''/d/1'') \<noteq> Some (str ''attachments/a.png'')"
proof -
  have s: "str ''a.png'' \<noteq> str ''b.png''" "str ''/d/1'' \<noteq> str ''a.png''" "str ''/d/1'' \<noteq> str ''b.png''"
    "str ''a.png'' \<noteq> str ''/d/1''" "str ''b.png'' \<noteq> str ''/d/1''" "str ''b.png'' \<noteq> str ''a.png''"
    "str ''a.png'' \<noteq> []" "str ''b.png'' \<noteq> []" "str ''a.png'' \<noteq> [46]" "str ''b.png'' \<noteq> [46]"
    "str ''attachments'' \<noteq> []" "str ''attachments'' \<noteq> [46]"
    "str ''attachments/a.png'' \<noteq> str ''attachments/b.png''"
    by (simp_all add: str_def)
  have e: "download_attachments shared_link_env (str ''A'') [str ''out''] empty_disk =
     ([(str ''a.png'', str ''attachments/a.png''), (str ''/d/1'', str ''attachments/b.png''),
       (str ''b.png'', str ''attachments/b.png'')],
      \<lparr>dirs = set (prefixes [str ''out'', str ''attachments'']),
       files = [[str ''out'', str ''attachments'', str ''a.png''] \<mapsto> Bytes [1],
                [str ''out'', str ''attachments'', str ''b.png''] \<mapsto> Bytes [1]]\<rparr>)"
    by (simp add: download_attachments_def download_one_def shared_link_env_def example_env_def
        empty_disk_def mkdir_def write_file_def full_url_def local_path_def attachment_link_def
        path_join_def sanitize_attachment_examples s Let_def)
       (simp add: str_def)
  show ?thesis
    unfolding e using s by simp
qed

text \<open>
  C9, as the code has it.  In one turn of the loop: a failed \<open>GET\<close> leaves \<open>url_mapping\<close>
  and the disk as they were; a failed write leaves \<open>url_mapping\<close> as it was; and
  \<open>url_mapping\<close> changes only when the bytes were fetched and written to the local file.
  So a failed attachment adds no key and removes or alters no entry of another attachment.
  For the whole run: the returned mapping is the one that the downloaded attachments
  alone build, every downloaded attachment is a listed one whose \<open>GET\<close> answered, and a
  string is a key exactly when it is the filename or the download reference of a
  downloaded attachment.  The link substitution leaves a text as it is when no filename
  and no download reference of a downloaded attachment occurs in it.
\<close>

theorem download_failure_isolated:
  "((\<exists>e. session_get env (full_url env a) = Inl e) \<longrightarrow>
      download_one env dir (m, fs) a = (m, fs)) \<and>
   (write_attempt env fs (local_path dir a) \<noteq> Written \<longrightarrow>
      fst (download_one env dir (m, fs) a) = m) \<and>
   (fst (download_one env dir (m, fs) a) \<noteq> m \<longrightarrow>
      (\<exists>content. session_get env (full_url env a) = Inr content \<and>
         write_attempt env fs (local_path dir a) = Written \<and>
         files (snd (download_one env dir (m, fs) a)) (local_path dir a) = Some (Bytes content))) \<and>
   fst (download_attachments env pid page_path fs0) =
      foldl add_entries [] (downloaded_attachments env pid page_path fs0) \<and>
   (\<forall>b\<in>set (downloaded_attachments env pid page_path fs0).
      \<exists>results content. get_attachments_from_content env pid = Inr results \<and> b \<in> set results \<and>
        session_get env (full_url env b) = Inr content) \<and>
   (k \<in> fst ` set (fst (download_attachments env pid page_path fs0)) \<longleftrightarrow>
      (\<exists>b\<in>set (downloaded_attachments env pid page_path fs0). att_title b = k \<or> att_download b = k)) \<and>
   ((\<forall>b\<in>set (downloaded_attachments env pid page_path fs0).
        \<not> sublist (att_title b) md \<and> \<not> sublist (att_download b) md) \<longrightarrow>
      replace_urls md (fst (download_attachments env pid page_path fs0)) = md)"
proof (intro conjI impI)
  assume "\<exists>e. session_get env (full_url env a) = Inl e"
  then show "download_one env dir (m, fs) a = (m, fs)"
    using download_one_get_fails by blast
next
  assume "write_attempt env fs (local_path dir a) \<noteq> Written"
  then show "fst (download_one env dir (m, fs) a) = m"
    using download_one_changed [of env dir m fs a] by blast
next
  assume "fst (download_one env dir (m, fs) a) \<noteq> m"
  then show "\<exists>content. session_get env (full_url env a) = Inr content \<and>
      write_attempt env fs (local_path dir a) = Written \<and>
      files (snd (download_one env dir (m, fs) a)) (local_path dir a) = Some (Bytes content)"
    by (rule download_one_changed)
next
  show "fst (download_attachments env pid page_path fs0) =
      foldl add_entries [] (downloaded_attachments env pid page_path fs0)"
    by (rule download_attachments_fst)
next
  show "\<forall>b\<in>set (downloaded_attachments env pid page_path fs0).
      \<exists>results content. get_attachments_from_content env pid = Inr results \<and> b \<in> set results \<and>
        session_get env (full_url env b) = Inr content"
    using downloaded_attachments_listed by blast
next
  show "k \<in> fst ` set (fst (download_attachments env pid page_path fs0)) \<longleftrightarrow>
      (\<exists>b\<in>set (downloaded_attachments env pid page_path fs0). att_title b = k \<or> att_download b = k)"
    unfolding download_attachments_keys by (simp add: has_key_def)
next
  assume h: "\<forall>b\<in>set (downloaded_attachments env pid page_path fs0).
        \<not> sublist (att_title b) md \<and> \<not> sublist (att_download b) md"
  have "\<forall>k\<in>fst ` set (fst (download_attachments env pid page_path fs0)). \<not> sublist k md"
  proof
    fix k
    assume "k \<in> fst ` set (fst (download_attachments env pid page_path fs0))"
    then obtain b where "b \<in> set (downloaded_attachments env pid page_path fs0)" "has_key k b"
      unfolding download_attachments_keys by blast
    with h show "\<not> sublist k md"
      by (auto simp: has_key_def)
  qed
  then show "replace_urls md (fst (download_attachments env pid page_path fs0)) = md"
    by (rule replace_urls_absent)
qed

theorem download_failure_isolated_witness:
  "download_one mixed_env [str ''out'', str ''Home'', str ''attachments'']
     ([(str ''a.png'', str ''attachments/a.png''), (str ''/d/a'', str ''attachments/a.png'')], empty_disk)
     \<lparr>att_title = str ''x.png'', att_download = str ''/d/x''\<rparr> =
     ([(str ''a.png'', str ''attachments/a.png''), (str ''/d/a'', str ''attachments/a.png'')], empty_disk) \<and>
   fst (download_one mixed_env [str ''out'', str ''Home'', str ''attachments'']
     ([(str ''a.png'', str ''attachments/a.png''), (str ''/d/a'', str ''attachments/a.png'')], empty_disk)
     \<lparr>att_title = str ''y.png'', att_download = str ''/d/y''\<rparr>) =
     [(str ''a.png'', str ''attachments/a.png''), (str ''/d/a'', str ''attachments/a.png'')] \<and>
   fst (download_attachments mixed_env (str ''A'') [str ''out'', str ''Home''] empty_disk) =
     [(str ''a.png'', str ''attachments/a.png''), (str ''/d/a'', str ''attachments/a.png''),
      (str ''diagram v1.png'', str ''attachments/diagram_v1.png''),
      (str ''/download/d1'', str ''attachments/diagram_v1.png'')] \<and>
   str ''x.png'' \<notin> fst ` set (fst (download_attachments mixed_env (str ''A'')
      [str ''out'', str ''Home''] empty_disk)) \<and>
   replace_urls (str ''see x.png and y.png'')
     (fst (download_attachments mixed_env (str ''A'') [str ''out'', str ''Home''] empty_disk)) =
     str ''see x.png and y.png''"
proof -
  let ?x = "\<lparr>att_title = str ''x.png'', att_download = str ''/d/x''\<rparr>"
  let ?y = "\<lparr>att_title = str ''y.png'', att_download = str ''/d/y''\<rparr>"
  let ?dir = "[str ''out'', str ''Home'', str ''attachments'']"
  let ?m = "[(str ''a.png'', str ''attachments/a.png''), (str ''/d/a'', str ''attachments/a.png'')]"
  have g: "\<exists>e. session_get mixed_env (full_url mixed_env ?x) = Inl e"
    by (simp add: mixed_env_def example_env_def full_url_def str_def)
  have w: "write_attempt mixed_env empty_disk (local_path ?dir ?y) \<noteq> Written"
    by (simp add: mixed_env_def local_path_def path_join_def sanitize_attachment_examples)
       (simp add: str_def)
  have s: "str ''a.png'' \<noteq> str ''/d/a''" "str ''diagram v1.png'' \<noteq> str ''/d/a''"
    "str ''diagram v1.png'' \<noteq> str ''a.png''" "str ''/download/d1'' \<noteq> str ''/d/a''"
    "str ''/download/d1'' \<noteq> str ''a.png''" "str ''/download/d1'' \<noteq> str ''diagram v1.png''"
    "str ''a.png'' \<noteq> str ''x.png''" "str ''/d/a'' \<noteq> str ''x.png''"
    "str ''diagram v1.png'' \<noteq> str ''x.png''" "str ''/download/d1'' \<noteq> str ''x.png''"
    by (simp_all add: str_def)
  have n: "\<forall>b\<in>set (downloaded_attachments mixed_env (str ''A'') [str ''out'', str ''Home''] empty_disk).
      \<not> sublist (att_title b) (str ''see x.png and y.png'') \<and>
      \<not> sublist (att_download b) (str ''see x.png and y.png'')"
    by (simp add: mixed_downloaded) (simp add: str_def sublist_Cons_right)
  from download_failure_isolated [where env = mixed_env and a = ?x and dir = ?dir and m = ?m
      and fs = empty_disk and k = "str ''x.png''" and pid = "str ''A''"
      and page_path = "[str ''out'', str ''Home'']" and ?fs0.0 = empty_disk
      and md = "str ''see x.png and y.png''"] g n
  have 1: "download_one mixed_env ?dir (?m, empty_disk) ?x = (?m, empty_disk)"
    and 3: "fst (download_attachments mixed_env (str ''A'') [str ''out'', str ''Home''] empty_disk) =
      foldl add_entries [] (downloaded_attachments mixed_env (str ''A'') [str ''out'', str ''Home''] empty_disk)"
    and 4: "str ''x.png'' \<in> fst ` set (fst (download_attachments mixed_env (str ''A'')
        [str ''out'', str ''Home''] empty_disk)) \<longleftrightarrow>
      (\<exists>b\<in>set (downloaded_attachments mixed_env (str ''A'') [str ''out'', str ''Home''] empty_disk).
         att_title b = str ''x.png'' \<or> att_download b = str ''x.png'')"
    and 5: "replace_urls (str ''see x.png and y.png'')
        (fst (download_attachments mixed_env (str ''A'') [str ''out'', str ''Home''] empty_disk)) =
        str ''see x.png and y.png''"
    by blast+
  from download_failure_isolated [where env = mixed_env and a = ?y and dir = ?dir and m = ?m
      and fs = empty_disk] w
  have 2: "fst (download_one mixed_env ?dir (?m, empty_disk) ?y) = ?m"
    by blast
  have m3: "fst (download_attachments mixed_env (str ''A'') [str ''out'', str ''Home''] empty_disk) =
     [(str ''a.png'', str ''attachments/a.png''), (str ''/d/a'', str ''attachments/a.png''),
      (str ''diagram v1.png'', str ''attachments/diagram_v1.png''),
      (str ''/download/d1'', str ''attachments/diagram_v1.png'')]"
    unfolding 3 mixed_downloaded
    by (simp add: add_entries_def attachment_link_def sanitize_attachment_examples s)
       (simp add: str_def)
  have k4: "str ''x.png'' \<notin> fst ` set (fst (download_attachments mixed_env (str ''A'')
      [str ''out'', str ''Home''] empty_disk))"
    unfolding 4 mixed_downloaded using s by simp
  from 1 2 m3 k4 5 show ?thesis by blast
qed

text \<open>
  The \<open>GET\<close> for \<open>xa.png\<close> fails and \<open>a.png\<close> is downloaded: \<open>xa.png\<close> is no key of the
  mapping, and yet the reference to it in the text is rewritten, since the key \<open>a.png\<close>
  occurs in it.
\<close>

theorem download_failure_rewritten:
  "session_get prefix_name_env
     (full_url prefix_name_env \<lparr>att_title = str ''xa.png'', att_download = str ''/d/xa''\<rparr>) =
     Inl RemoteError \<and>
   fst (download_attachments prefix_name_env (str ''A'') [str ''out''] empty_disk) =
     [(str ''a.png'', str ''attachments/a.png''), (str ''/d/a'', str ''attachments/a.png'')] \<and>
   replace_urls (str ''see xa.png'')
     (fst (download_attachments prefix_name_env (str ''A'') [str ''out''] empty_disk)) =
     str ''see xattachments/a.png''"
proof -
  have s: "str ''a.png'' \<noteq> str ''/d/a''" "str ''/d/a'' \<noteq> str ''a.png''"
    "str ''a.png'' \<noteq> []" "str ''a.png'' \<noteq> [46]" "str ''xa.png'' \<noteq> []" "str ''xa.png'' \<noteq> [46]"
    "str ''attachments'' \<noteq> []" "str ''attachments'' \<noteq> [46]"
    by (simp_all add: str_def)
  have u: "full_url prefix_name_env \<lparr>att_title = str ''xa.png'', att_download = str ''/d/xa''\<rparr> =
      str ''https://wiki.example/d/xa''"
    "full_url prefix_name_env \<lparr>att_title = str ''a.png'', att_download = str ''/d/a''\<rparr> =
      str ''https://wiki.example/d/a''"
    by (simp_all add: full_url_def prefix_name_env_def example_env_def str_def)
  have g: "session_get prefix_name_env (str ''https://wiki.example/d/xa'') = Inl RemoteError"
    "session_get prefix_name_env (str ''https://wiki.example/d/a'') = Inr [1]"
    by (simp_all add: prefix_name_env_def example_env_def str_def)
  have l: "get_attachments_from_content prefix_name_env (str ''A'') =
      Inr [\<lparr>att_title = str ''xa.png'', att_download = str ''/d/xa''\<rparr>,
           \<lparr>att_title = str ''a.png'', att_download = str ''/d/a''\<rparr>]"
    by (simp add: prefix_name_env_def)
  have mk: "\<And>p fs. mkdir prefix_name_env p fs = Inr (fs\<lparr>dirs := dirs fs \<union> set (prefixes p)\<rparr>)"
    by (simp add: mkdir_def prefix_name_env_def example_env_def)
  have w: "\<And>fs p. write_attempt prefix_name_env fs p = Written"
    by (simp add: prefix_name_env_def example_env_def)
  have e: "fst (download_attachments prefix_name_env (str ''A'') [str ''out''] empty_disk) =
     [(str ''a.png'', str ''attachments/a.png''), (str ''/d/a'', str ''attachments/a.png'')]"
    by (simp add: download_attachments_def download_one_def l mk w u g write_file_def
          attachment_link_def sanitize_attachment_examples s Let_def)
       (simp add: str_def)
  have r: "replace_urls (str ''see xa.png'')
     [(str ''a.png'', str ''attachments/a.png''), (str ''/d/a'', str ''attachments/a.png'')] =
     str ''see xattachments/a.png''"
    by (simp add: replace_urls_def str_replace_def str_def)
  show ?thesis
    unfolding e by (simp add: u g r)
qed
section \<open>Properties of the exported file\<close>

text \<open>
  C6: when \<open>export_page\<close> returns, the file \<open>index.md\<close> in the directory of the page
  holds, in this order: the front matter \<open>---\<close>, \<open>labels:\<close> with the label names joined by
  a comma and a space, \<open>---\<close> and an empty line, present exactly when the page has a
  label; the heading \<open>#\<close> with the title of the page and an empty line; and the body that
  \<open>convert_to_markdown\<close> returns for the HTML after \<open>handle_drawio_embeds\<close> and the mapping
  of \<open>download_attachments\<close>.
\<close>

theorem export_page_index_md:
  assumes "export_page env page_paths p fs = Inr fs'"
  shows "\<exists>page_path fs1.
     page_paths (page_id p) = Some page_path \<and> mkdir env page_path fs = Inr fs1 \<and>
     files fs' (path_join page_path (str ''index.md'')) =
       Some (Text
         ((case labels p of
             None \<Rightarrow> []
           | Some names \<Rightarrow>
               if names = [] then []
               else str ''---'' @ [10] @ str ''labels: '' @ str_join (str '', '') names @ [10]
                    @ str ''---'' @ [10, 10])
          @ str ''# '' @ title p @ [10, 10]
          @ convert_to_markdown env
              (handle_drawio_embeds (case body_storage p of None \<Rightarrow> [] | Some v \<Rightarrow> v))
              (fst (download_attachments env (page_id p) page_path fs1))))"
proof -
  from assms obtain page_path where pp: "page_paths (page_id p) = Some page_path"
    by (auto simp: export_page_def split: option.splits)
  from assms pp obtain fs1 where mk: "mkdir env page_path fs = Inr fs1"
    by (auto simp: export_page_def split: sum.splits)
  from assms pp mk show ?thesis
    by (auto simp: export_page_def write_file_def Let_def
        split: option.splits if_splits write_outcome.splits)
qed

lemma example_env_simps:
  "get_attachments_from_content example_env (str ''A'') =
     Inr [\<lparr>att_title = str ''diagram v1.png'', att_download = str ''/download/d1''\<rparr>]"
  "mkdir example_env p fs = Inr (fs\<lparr>dirs := dirs fs \<union> set (prefixes p)\<rparr>)"
  "write_file example_env p c fs = (None, fs\<lparr>files := (files fs)(p \<mapsto> c)\<rparr>)"
  "full_url example_env \<lparr>att_title = str ''diagram v1.png'', att_download = str ''/download/d1''\<rparr> =
     str ''https://wiki.example/download/d1''"
  "session_get example_env (str ''https://wiki.example/download/d1'') = Inr [137, 80]"
  "markdownify example_env html = html"
  by (simp_all add: example_env_def mkdir_def write_file_def full_url_def str_def)

lemma example_download:
  "fst (download_attachments example_env (str ''A'') [str ''out'', str ''Home''] fs) =
     [(str ''diagram v1.png'', str ''attachments/diagram_v1.png''),
      (str ''/download/d1'', str ''attachments/diagram_v1.png'')]"
proof -
  have s: "str ''diagram v1.png'' \<noteq> str ''/download/d1''" "str ''/download/d1'' \<noteq> str ''diagram v1.png''"
    by (simp_all add: str_def)
  show ?thesis
    by (simp add: download_attachments_def download_one_def example_env_simps
        attachment_link_def sanitize_attachment_examples s Let_def)
       (simp add: str_def)
qed

lemma example_body:
  "convert_to_markdown example_env (handle_drawio_embeds (str ''see diagram v1.png''))
     [(str ''diagram v1.png'', str ''attachments/diagram_v1.png''),
      (str ''/download/d1'', str ''attachments/diagram_v1.png'')] =
   str ''see attachments/diagram_v1.png''"
proof -
  have h: "handle_drawio_embeds (str ''see diagram v1.png'') = str ''see diagram v1.png''"
    by (simp add: str_def drawio_match_def drawio_open_def)
  have r: "replace_urls (str ''see diagram v1.png'')
     [(str ''diagram v1.png'', str ''attachments/diagram_v1.png''),
      (str ''/download/d1'', str ''attachments/diagram_v1.png'')] = str ''see attachments/diagram_v1.png''"
    by (simp add: replace_urls_def str_replace_def str_def)
  have n: "re_sub_newlines (str ''see attachments/diagram_v1.png'') = str ''see attachments/diagram_v1.png''"
    by (simp add: str_def)
  show ?thesis
    by (simp add: convert_to_markdown_def h example_env_simps r n)
qed

theorem export_page_index_md_witness:
  "\<exists>fs'. export_page example_env [str ''A'' \<mapsto> [str ''out'', str ''Home'']] home_page empty_disk = Inr fs' \<and>
     files fs' [str ''out'', str ''Home'', str ''index.md''] =
       Some (Text (str ''---'' @ [10] @ str ''labels: a, b'' @ [10] @ str ''---'' @ [10, 10] @
                   str ''# Home'' @ [10, 10] @ str ''see attachments/diagram_v1.png''))"
proof -
  have "\<exists>fs'. export_page example_env [str ''A'' \<mapsto> [str ''out'', str ''Home'']] home_page empty_disk = Inr fs'"
    by (simp add: export_page_def example_env_simps home_page_def Let_def)
  then obtain fs' where
    e: "export_page example_env [str ''A'' \<mapsto> [str ''out'', str ''Home'']] home_page empty_disk = Inr fs'"
    by blast
  from export_page_index_md [OF e] obtain fs1 where
    "files fs' (path_join [str ''out'', str ''Home''] (str ''index.md'')) =
       Some (Text
         ((case labels home_page of
             None \<Rightarrow> []
           | Some names \<Rightarrow>
               if names = [] then []
               else str ''---'' @ [10] @ str ''labels: '' @ str_join (str '', '') names @ [10]
                    @ str ''---'' @ [10, 10])
          @ str ''# '' @ title home_page @ [10, 10]
          @ convert_to_markdown example_env
              (handle_drawio_embeds (case body_storage home_page of None \<Rightarrow> [] | Some v \<Rightarrow> v))
              (fst (download_attachments example_env (page_id home_page) [str ''out'', str ''Home''] fs1))))"
    by (auto simp: home_page_def)
  then have "files fs' [str ''out'', str ''Home'', str ''index.md''] =
       Some (Text (str ''---'' @ [10] @ str ''labels: a, b'' @ [10] @ str ''---'' @ [10, 10] @
                   str ''# Home'' @ [10, 10] @ str ''see attachments/diagram_v1.png''))"
    by (simp add: home_page_def example_download example_body)
       (simp add: path_join_def str_def)
  with e show ?thesis by blast
qed

section \<open>Properties of the date filter\<close>

lemma dt_ge_same_tzinfo: "dt_ge m (since\<lparr>tzinfo := tzinfo m\<rparr>) = Some (wall since \<le> wall m)"
  by (cases "tzinfo m") (simp_all add: dt_ge_def)

lemma filter_since_filter:
  "filter_since env since ps filtered_pages = Inr (filtered_pages @ filter (kept_since env since) ps)"
proof (induction ps arbitrary: filtered_pages)
  case Nil
  then show ?case by simp
next
  case (Cons p ps)
  show ?case
  proof (cases "version_when p")
    case None
    then show ?thesis by (simp add: Cons.IH kept_since_def)
  next
    case (Some w)
    show ?thesis
    proof (cases "w = []")
      case True
      with Some show ?thesis by (simp add: Cons.IH kept_since_def)
    next
      case False
      with Some show ?thesis
        by (cases "fromisoformat env (str_replace w (str ''Z'') (str ''+00:00''))")
           (simp_all add: Cons.IH kept_since_def dt_ge_same_tzinfo Let_def)
    qed
  qed
qed

text \<open>
  C4: when the listing of the space ends with the pages \<open>all_pages\<close> and a \<open>since\<close> date is
  given, \<open>fetch_all_pages\<close> returns exactly the fetched pages, in their order, whose
  \<open>version.when\<close> is missing or empty, or is not parsed by \<open>fromisoformat\<close>, or is parsed
  to a time not before \<open>since\<close>; \<open>since\<close> is read in the time zone of the parsed time, so
  the two wall-clock readings are compared, and the comparison never raises.
\<close>

theorem fetch_all_pages_since:
  assumes "fetch_loop env 0 [] = Some (Inr all_pages)"
  shows "fetch_all_pages env (Some since) =
     Some (Inr (filter (\<lambda>p. case version_when p of
                          None \<Rightarrow> True
                        | Some w \<Rightarrow>
                            w = [] \<or>
                            (case fromisoformat env (str_replace w (str ''Z'') (str ''+00:00'')) of
                               None \<Rightarrow> True
                             | Some modified_date \<Rightarrow> wall since \<le> wall modified_date))
                  all_pages))"
proof -
  have "kept_since env since = (\<lambda>p. case version_when p of
                          None \<Rightarrow> True
                        | Some w \<Rightarrow>
                            w = [] \<or>
                            (case fromisoformat env (str_replace w (str ''Z'') (str ''+00:00'')) of
                               None \<Rightarrow> True
                             | Some modified_date \<Rightarrow> wall since \<le> wall modified_date))"
    by (rule ext) (simp add: kept_since_def)
  with assms filter_since_filter [of env since all_pages "[]"] show ?thesis
    by (simp add: fetch_all_pages_def)
qed

lemma example_fetch_loop: "fetch_loop example_env 0 [] = Some (Inr example_dated_pages)"
  by (subst fetch_loop.simps) (simp add: example_env_def example_dated_pages_def)

theorem fetch_all_pages_since_witness:
  "fetch_loop example_env 0 [] = Some (Inr example_dated_pages) \<and>
   fetch_all_pages example_env (Some \<lparr>wall = 20240101000000, tzinfo = None\<rparr>) =
     Some (Inr [dated_page ''new'' (Some (str ''2024-01-02T13:25:33.000Z'')),
                dated_page ''none'' None,
                dated_page ''bad'' (Some (str ''yesterday''))])"
proof -
  have r: "str_replace (str ''2024-01-02T13:25:33.000Z'') (str ''Z'') (str ''+00:00'') = str ''2024-01-02T13:25:33.000+00:00''"
    "str_replace (str ''2023-05-01T00:00:00.000Z'') (str ''Z'') (str ''+00:00'') = str ''2023-05-01T00:00:00.000+00:00''"
    "str_replace (str ''yesterday'') (str ''Z'') (str ''+00:00'') = str ''yesterday''"
    by (simp_all add: str_replace_def str_def)
  have s: "str ''2023-05-01T00:00:00.000+00:00'' \<noteq> str ''2024-01-02T13:25:33.000+00:00''"
    "str ''yesterday'' \<noteq> str ''2024-01-02T13:25:33.000+00:00''"
    "str ''yesterday'' \<noteq> str ''2023-05-01T00:00:00.000+00:00''"
    "str ''2024-01-02T13:25:33.000Z'' \<noteq> []" "str ''2023-05-01T00:00:00.000Z'' \<noteq> []"
    "str ''yesterday'' \<noteq> []"
    by (simp_all add: str_def)
  have f: "fromisoformat example_env = (\<lambda>s. if s = str ''2024-01-02T13:25:33.000+00:00''
              then Some \<lparr>wall = 20240102132533, tzinfo = Some 0\<rparr>
              else if s = str ''2023-05-01T00:00:00.000+00:00''
              then Some \<lparr>wall = 20230501000000, tzinfo = Some 0\<rparr>
              else None)"
    by (simp add: example_env_def)
  from fetch_all_pages_since [OF example_fetch_loop, of "\<lparr>wall = 20240101000000, tzinfo = None\<rparr>"]
  show ?thesis
    by (simp add: example_fetch_loop example_dated_pages_def dated_page_def r s f)
qed


end
